theory Spec2Isabelle
  imports Main "HOL-Library.Word" "HOL-Library.Signed_Division"
begin

unbundle bit_operations_syntax

section \<open>Constants and machine types of simplemux.c\<close>

text \<open>
  The buffers of \<^verbatim>\<open>main\<close> are arrays of plain \<^verbatim>\<open>char\<close>. A byte is an
  \<open>8 word\<close>; an array is a list whose length is the declared size of the array.
  Whether plain \<^verbatim>\<open>char\<close> is signed is fixed by the platform ABI (signed on x86 and
  x86-64 Linux, unsigned on ARM Linux), so the value an expression reads from a
  \<^verbatim>\<open>char\<close> takes the signedness as a parameter.
\<close>

type_synonym byte = "8 word"

definition BUFSIZE :: int where
  "BUFSIZE = 2000"

definition MTU :: int where
  "MTU = 1500"

definition MAXPKTS :: int where
  "MAXPKTS = 100"

definition MAXTHRESHOLD :: int where
  "MAXTHRESHOLD = 1472"

text \<open>
  \<^verbatim>\<open>MAXTIMEOUT\<close> is the double constant 100000000.0; \<^verbatim>\<open>timeout\<close> and \<^verbatim>\<open>period\<close> are
  \<^verbatim>\<open>uint64_t\<close>. The comparisons of line 507 and 510 convert the integer to double; the
  conversion is monotone and exact below \<open>2 ^ 53\<close>, so they agree with the comparison
  of the unsigned values with the integer 100000000.
\<close>

definition MAXTIMEOUT :: int where
  "MAXTIMEOUT = 100000000"

definition char_val :: "bool \<Rightarrow> byte \<Rightarrow> int" where
  "char_val sg c = (if sg then sint c else uint c)"

text \<open>\<^verbatim>\<open>FromByte\<close> (line 255): \<open>b[i] = (c & (1<<i)) != 0\<close>, on an unsigned char.\<close>

definition FromByte :: "byte \<Rightarrow> bool list" where
  "FromByte c = map (\<lambda>i. c AND push_bit i 1 \<noteq> 0) [0..<8]"

text \<open>
  Array accesses. An index outside the declared array is undefined behaviour in C;
  the model returns \<open>None\<close> there and every caller turns it into the fault
  \<open>Out_of_bounds\<close>.
\<close>

definition rd :: "'a list \<Rightarrow> int \<Rightarrow> 'a option" where
  "rd a i = (if 0 \<le> i \<and> i < int (length a) then Some (a ! nat i) else None)"

definition wr :: "'a list \<Rightarrow> int \<Rightarrow> 'a \<Rightarrow> 'a list option" where
  "wr a i v = (if 0 \<le> i \<and> i < int (length a) then Some (a[nat i := v]) else None)"

datatype fault = Out_of_bounds | Exit_writing_data

text \<open>Status codes of the ROHC library (rohc/rohc.h, not part of the repository).\<close>

datatype rohc_status_t =
    ROHC_STATUS_OK
  | ROHC_STATUS_SEGMENT
  | ROHC_STATUS_MALFORMED
  | ROHC_STATUS_NO_CONTEXT
  | ROHC_STATUS_BAD_CRC
  | ROHC_STATUS_OUTPUT_TOO_SMALL
  | ROHC_STATUS_ERROR

text \<open>
  The two library calls the program makes, with the library's contexts as opaque
  values of types \<open>'c\<close> and \<open>'d\<close>: each call returns the status, the bytes of the
  output buffer and the new context.
\<close>

record ('c, 'd) rohc_lib =
  rohc_compress4 :: "'c \<Rightarrow> byte list \<Rightarrow> rohc_status_t \<times> byte list \<times> 'c"
  rohc_decompress3 :: "'d \<Rightarrow> byte list \<Rightarrow> rohc_status_t \<times> byte list \<times> 'd"

section \<open>Observable effects\<close>

text \<open>
  The tags that end a \<open>sent muxed\<close> record of the log file, and the records
  themselves with their byte count (the time stamp, the packet counter and the peer
  address of each record are left out).
\<close>

datatype tag = Tag_MTU | Tag_numpacket_limit | Tag_size_limit | Tag_timeout | Tag_period

datatype log_record =
    Rec_muxed int
  | Error_bad_separator int
  | Error_demux_bad_length int
  | Rec_ROHC_feedback int
  | Error_decomp_failed int
  | Sent_demuxed int
  | Forward_native int
  | Rec_native int
  | Error_compr_failed int
  | Sent_muxed int int "tag list"

datatype event =
    Sendto "byte list"
  | Cwrite "byte list"
  | Log log_record

section \<open>Configuration and state of the main loop\<close>

text \<open>
  The options that the main loop reads, under the names of the variables of
  \<^verbatim>\<open>main\<close>. \<open>compress_headers\<close> is the flag set by \<^verbatim>\<open>-r\<close> (0 or 1 in the program),
  \<open>log_file\<close> says whether the log file was opened (\<^verbatim>\<open>log_file != NULL\<close>). Two
  fields are no options of the program but its environment: \<open>char_signed\<close> is the
  signedness of plain char on the platform it was compiled for, and \<open>tap_accepts\<close>
  says of which bytes the tun/tap device behind \<^verbatim>\<open>tap_fd\<close> accepts a
  \<^verbatim>\<open>write\<close> (a tun device refuses, for instance, an empty write and bytes that are
  no IP packet). The state holds the variables that live across iterations of the
  loop.
\<close>

record config =
  port :: "16 word"
  compress_headers :: bool
  limit_numpackets_tap :: int
  size_threshold :: int
  timeout :: "64 word"
  period :: "64 word"
  log_file :: bool
  char_signed :: bool
  tap_accepts :: "byte list \<Rightarrow> bool"

record ('c, 'd) state =
  buffer_from_net :: "byte list"
  muxed_packet :: "byte list"
  demuxed_packet :: "byte list"
  size_muxed_packet :: int
  num_pkts_stored_from_tap :: int
  time_last_sent_in_microsec :: "64 word"
  compressor :: 'c
  decompressor :: 'd

definition logrec :: "config \<Rightarrow> log_record \<Rightarrow> event list" where
  "logrec cfg r = (if log_file cfg then [Log r] else [])"

text \<open>Lines 507-510: the default of the packet-count trigger.\<close>

definition trigger_defaults :: "int \<Rightarrow> 64 word \<Rightarrow> 64 word \<Rightarrow> int \<Rightarrow> int" where
  "trigger_defaults size_thr tmo per limit =
     (let limit1 =
            (if (size_thr < MAXTHRESHOLD \<or> uint tmo < MAXTIMEOUT \<or> uint per < MAXTIMEOUT)
                \<and> limit = 0
             then MAXPKTS else limit)
      in if (size_thr = MAXTHRESHOLD \<and> uint tmo = MAXTIMEOUT \<and> uint tmo = MAXTIMEOUT)
            \<and> limit1 = 0
         then 1 else limit1)"

section \<open>System calls\<close>

text \<open>
  \<^verbatim>\<open>sendto(net_fd, muxed_packet, size_muxed_packet, ...)\<close> sends the first
  \<open>n\<close> bytes of the array; a failure of the call is only reported with perror.
\<close>

definition sendto :: "byte list \<Rightarrow> int \<Rightarrow> fault + event" where
  "sendto buf n =
     (if 0 \<le> n \<and> n \<le> int (length buf) then Inr (Sendto (take (nat n) buf))
      else Inl Out_of_bounds)"

text \<open>
  \<^verbatim>\<open>cwrite\<close> (line 129) exits when \<^verbatim>\<open>write\<close> returns an error. A negative \<open>n\<close>
  becomes a \<^verbatim>\<open>size_t\<close> above \<^verbatim>\<open>SSIZE_MAX\<close>, which \<^verbatim>\<open>write\<close> rejects; the first
  \<open>n\<close> bytes of the array are written when the device \<open>dev\<close> accepts them, and
  refused with an error otherwise.
\<close>

definition cwrite :: "(byte list \<Rightarrow> bool) \<Rightarrow> byte list \<Rightarrow> int \<Rightarrow> fault + event" where
  "cwrite dev buf n =
     (if n < 0 then Inl Exit_writing_data
      else if n \<le> int (length buf) then
        (if dev (take (nat n) buf) then Inr (Cwrite (take (nat n) buf))
         else Inl Exit_writing_data)
      else Inl Out_of_bounds)"

text \<open>\<^verbatim>\<open>cread(tap_fd, packet_read_from_tap, BUFSIZE)\<close>: at most \<open>BUFSIZE\<close> bytes.\<close>

definition cread :: "byte list \<Rightarrow> byte list" where
  "cread pkt = take (nat BUFSIZE) pkt"

text \<open>
  \<^verbatim>\<open>recvfrom(net_fd, buffer_from_net, BUFSIZE, ...)\<close> stores the datagram at the start
  of the array, leaves the rest of the array as it was, and returns the number of
  bytes stored.
\<close>

definition recvfrom :: "byte list \<Rightarrow> byte list \<Rightarrow> byte list \<times> int" where
  "recvfrom buf dgram =
     (let d = take (nat BUFSIZE) dgram in (d @ drop (length d) buf, int (length d)))"

section \<open>Send path: tap to net (lines 946-1166)\<close>

text \<open>Lines 1055-1059.\<close>

definition predicted_size_muxed_packet :: "int \<Rightarrow> int \<Rightarrow> int" where
  "predicted_size_muxed_packet sz n = (if n < 64 then sz + 1 + n else sz + 2 + n)"

text \<open>
  Lines 963-1053: the packet that is multiplexed, after the optional compression.
  Whatever the status, the content of the library's output buffer (room for \<open>BUFSIZE\<close>
  bytes) replaces the packet; a failure is only reported.
\<close>

definition compress_packet ::
  "('c, 'd) rohc_lib \<Rightarrow> config \<Rightarrow> ('c, 'd) state \<Rightarrow> byte list
     \<Rightarrow> event list \<times> ('c, 'd) state \<times> byte list" where
  "compress_packet lib cfg s pkt =
     (if compress_headers cfg then
        (case rohc_compress4 lib (compressor s) pkt of
           (status, rohc_packet, c') \<Rightarrow>
             ((if status = ROHC_STATUS_SEGMENT then []
               else if status = ROHC_STATUS_OK then []
               else logrec cfg (Error_compr_failed (int (length pkt)))),
              s\<lparr>compressor := c'\<rparr>,
              take (nat BUFSIZE) rohc_packet))
      else ([], s, pkt))"

text \<open>Lines 1062-1075: the accumulated bytes leave before a packet that would pass the MTU.\<close>

definition mtu_flush ::
  "config \<Rightarrow> ('c, 'd) state \<Rightarrow> int \<Rightarrow> event list \<times> (fault + ('c, 'd) state)" where
  "mtu_flush cfg s n =
     (if predicted_size_muxed_packet (size_muxed_packet s) n > MTU then
        (case sendto (muxed_packet s) (size_muxed_packet s) of
           Inl f \<Rightarrow> ([], Inl f)
         | Inr e \<Rightarrow>
             (e # logrec cfg (Sent_muxed (size_muxed_packet s) (num_pkts_stored_from_tap s) [Tag_MTU]),
              Inr (s\<lparr>size_muxed_packet := 0, num_pkts_stored_from_tap := 0\<rparr>)))
      else ([], Inr s))"

text \<open>Lines 1083-1118: the separator, stored at \<open>size_muxed_packet\<close>.\<close>

definition store_separator :: "byte list \<Rightarrow> int \<Rightarrow> int \<Rightarrow> fault + (byte list \<times> int)" where
  "store_separator mp sz n =
     (if n < 64 then
        (case wr mp sz (of_int n) of
           None \<Rightarrow> Inl Out_of_bounds
         | Some mp1 \<Rightarrow> Inr (mp1, sz + 1))
      else
        (case wr mp sz (of_int (n div 256 + 64)) of
           None \<Rightarrow> Inl Out_of_bounds
         | Some mp1 \<Rightarrow>
             (case wr mp1 (sz + 1) (of_int (n mod 256)) of
                None \<Rightarrow> Inl Out_of_bounds
              | Some mp2 \<Rightarrow> Inr (mp2, sz + 2))))"

text \<open>Lines 1121-1126: the copy loop, one byte of the packet per iteration.\<close>

fun store_packet :: "byte list \<Rightarrow> int \<Rightarrow> byte list \<Rightarrow> fault + (byte list \<times> int)" where
  "store_packet mp sz [] = Inr (mp, sz)"
| "store_packet mp sz (b # bs) =
     (case wr mp sz b of
        None \<Rightarrow> Inl Out_of_bounds
      | Some mp1 \<Rightarrow> store_packet mp1 (sz + 1) bs)"

text \<open>Lines 1078-1126.\<close>

definition accumulate :: "('c, 'd) state \<Rightarrow> byte list \<Rightarrow> fault + ('c, 'd) state" where
  "accumulate s p =
     (case store_separator (muxed_packet s) (size_muxed_packet s) (int (length p)) of
        Inl f \<Rightarrow> Inl f
      | Inr (mp1, sz1) \<Rightarrow>
          (case store_packet mp1 sz1 p of
             Inl f \<Rightarrow> Inl f
           | Inr (mp2, sz2) \<Rightarrow>
               Inr (s\<lparr>muxed_packet := mp2, size_muxed_packet := sz2,
                      num_pkts_stored_from_tap := num_pkts_stored_from_tap s + 1\<rparr>)))"

text \<open>
  Lines 1129-1165: the three triggers evaluated after a packet was stored. The time
  stamps are \<^verbatim>\<open>uint64_t\<close>, so the difference wraps around.
\<close>

definition trigger ::
  "config \<Rightarrow> ('c, 'd) state \<Rightarrow> 64 word \<Rightarrow> event list \<times> (fault + ('c, 'd) state)" where
  "trigger cfg s time_in_microsec =
     (let time_difference = time_in_microsec - time_last_sent_in_microsec s;
          by_number = (num_pkts_stored_from_tap s = limit_numpackets_tap cfg);
          by_size = (size_muxed_packet s > size_threshold cfg);
          by_timeout = (time_difference > timeout cfg)
      in if by_number \<or> by_size \<or> by_timeout then
           (case sendto (muxed_packet s) (size_muxed_packet s) of
              Inl f \<Rightarrow> ([], Inl f)
            | Inr e \<Rightarrow>
                (e # logrec cfg (Sent_muxed (size_muxed_packet s) (num_pkts_stored_from_tap s)
                       ((if by_number then [Tag_numpacket_limit] else [])
                        @ (if by_size then [Tag_size_limit] else [])
                        @ (if by_timeout then [Tag_timeout] else []))),
                 Inr (s\<lparr>size_muxed_packet := 0, num_pkts_stored_from_tap := 0,
                        time_last_sent_in_microsec := time_in_microsec\<rparr>)))
         else ([], Inr s))"

text \<open>Lines 946-1166: a packet was read from the tap at time \<open>time_in_microsec\<close>.\<close>

definition tap_to_net ::
  "('c, 'd) rohc_lib \<Rightarrow> config \<Rightarrow> ('c, 'd) state \<Rightarrow> 64 word \<Rightarrow> byte list
     \<Rightarrow> event list \<times> (fault + ('c, 'd) state)" where
  "tap_to_net lib cfg s time_in_microsec pkt =
     (let pkt0 = cread pkt;
          ev0 = logrec cfg (Rec_native (int (length pkt0)))
      in case compress_packet lib cfg s pkt0 of
           (ev1, s1, p) \<Rightarrow>
             (case mtu_flush cfg s1 (int (length p)) of
                (ev2, Inl f) \<Rightarrow> (ev0 @ ev1 @ ev2, Inl f)
              | (ev2, Inr s2) \<Rightarrow>
                  (case accumulate s2 p of
                     Inl f \<Rightarrow> (ev0 @ ev1 @ ev2, Inl f)
                   | Inr s3 \<Rightarrow>
                       (case trigger cfg s3 time_in_microsec of
                          (ev3, r) \<Rightarrow> (ev0 @ ev1 @ ev2 @ ev3, r)))))"

text \<open>Lines 1172-1198: the period expired with neither descriptor ready.\<close>

definition period_expired ::
  "config \<Rightarrow> ('c, 'd) state \<Rightarrow> 64 word \<Rightarrow> event list \<times> (fault + ('c, 'd) state)" where
  "period_expired cfg s time_in_microsec =
     (if num_pkts_stored_from_tap s > 0 then
        (case sendto (muxed_packet s) (size_muxed_packet s) of
           Inl f \<Rightarrow> ([], Inl f)
         | Inr e \<Rightarrow>
             (e # logrec cfg (Sent_muxed (size_muxed_packet s) (num_pkts_stored_from_tap s) [Tag_period]),
              Inr (s\<lparr>size_muxed_packet := 0, num_pkts_stored_from_tap := 0,
                     time_last_sent_in_microsec := time_in_microsec\<rparr>)))
      else ([], Inr (s\<lparr>time_last_sent_in_microsec := time_in_microsec\<rparr>)))"

section \<open>Receive path: net to tap (lines 712-941)\<close>

text \<open>
  Lines 757-780: the length carried by the separator at \<open>position\<close> and the position
  after it. \<^verbatim>\<open>%\<close> of C truncates towards zero (\<open>smod\<close>).
\<close>

definition read_separator :: "bool \<Rightarrow> byte list \<Rightarrow> int \<Rightarrow> fault + (int \<times> int)" where
  "read_separator sg buf position =
     (case rd buf position of
        None \<Rightarrow> Inl Out_of_bounds
      | Some c0 \<Rightarrow>
          if FromByte c0 ! 6 = False then
            Inr (char_val sg c0 smod 128, position + 1)
          else
            (case rd buf (position + 1) of
               None \<Rightarrow> Inl Out_of_bounds
             | Some c1 \<Rightarrow>
                 Inr ((char_val sg c0 smod 64) * 256 + char_val sg c1, position + 2)))"

text \<open>
  Lines 784-787: the copy into \<^verbatim>\<open>demuxed_packet\<close>. The loop runs before the
  position is compared with \<^verbatim>\<open>nread_from_net\<close>.
\<close>

function copy_demuxed ::
  "byte list \<Rightarrow> byte list \<Rightarrow> int \<Rightarrow> int \<Rightarrow> int \<Rightarrow> fault + (byte list \<times> int)" where
  "copy_demuxed buf dm packet_length l position =
     (if l < packet_length then
        (case rd buf position of
           None \<Rightarrow> Inl Out_of_bounds
         | Some c \<Rightarrow>
             (case wr dm l c of
                None \<Rightarrow> Inl Out_of_bounds
              | Some dm1 \<Rightarrow> copy_demuxed buf dm1 packet_length (l + 1) (position + 1)))
      else Inr (dm, position))"
  by pat_completeness auto

termination
  by (relation "measure (\<lambda>(buf, dm, packet_length, l, position). nat (packet_length - l))") auto

declare copy_demuxed.simps [simp del]

text \<open>
  Lines 802-913: the decompression of the demultiplexed packet. The result carries
  \<^verbatim>\<open>packet_length\<close> and \<^verbatim>\<open>status\<close> as line 917 reads them. A negative
  \<^verbatim>\<open>packet_length\<close> would be stored in the unsigned \<^verbatim>\<open>rohc_packet_d.len\<close> as a length
  far beyond the buffer of the library, and a decompressed packet longer than
  \<^verbatim>\<open>demuxed_packet\<close> would be copied past its end (line 851): both are faults.
\<close>

definition decompress_packet ::
  "('c, 'd) rohc_lib \<Rightarrow> config \<Rightarrow> int \<Rightarrow> ('c, 'd) state \<Rightarrow> int
     \<Rightarrow> event list \<times> (fault + (('c, 'd) state \<times> int \<times> rohc_status_t))" where
  "decompress_packet lib cfg nread s packet_length =
     (if 0 \<le> packet_length \<and> packet_length \<le> int (length (demuxed_packet s)) then
        (case rohc_decompress3 lib (decompressor s) (take (nat packet_length) (demuxed_packet s)) of
           (status, ip_packet_d, d') \<Rightarrow>
             (let s1 = s\<lparr>decompressor := d'\<rparr> in
              if status = ROHC_STATUS_OK then
                (if ip_packet_d = [] then
                   (logrec cfg (Rec_ROHC_feedback nread), Inr (s1, packet_length, status))
                 else if length ip_packet_d \<le> length (demuxed_packet s) then
                   ([], Inr (s1\<lparr>demuxed_packet :=
                                  ip_packet_d @ drop (length ip_packet_d) (demuxed_packet s)\<rparr>,
                             int (length ip_packet_d), status))
                 else ([], Inl Out_of_bounds))
              else (logrec cfg (Error_decomp_failed nread), Inr (s1, packet_length, status))))
      else ([], Inl Out_of_bounds))"

text \<open>Lines 801-925: decompress when compression is in use, then write to the tap.\<close>

definition write_demuxed ::
  "('c, 'd) rohc_lib \<Rightarrow> config \<Rightarrow> int \<Rightarrow> ('c, 'd) state \<Rightarrow> int
     \<Rightarrow> event list \<times> (fault + ('c, 'd) state)" where
  "write_demuxed lib cfg nread s packet_length =
     (if compress_headers cfg then
        (case decompress_packet lib cfg nread s packet_length of
           (evs, Inl f) \<Rightarrow> (evs, Inl f)
         | (evs, Inr (s1, n, status)) \<Rightarrow>
             if status = ROHC_STATUS_OK then
               (case cwrite (tap_accepts cfg) (demuxed_packet s1) n of
                  Inl f \<Rightarrow> (evs, Inl f)
                | Inr e \<Rightarrow> (evs @ e # logrec cfg (Sent_demuxed n), Inr s1))
             else (evs, Inr s1))
      else
        (case cwrite (tap_accepts cfg) (demuxed_packet s) packet_length of
           Inl f \<Rightarrow> ([], Inl f)
         | Inr e \<Rightarrow> (e # logrec cfg (Sent_demuxed packet_length), Inr s)))"

text \<open>Lines 737-927: one iteration of the demultiplexing loop, from \<open>position\<close>.\<close>

definition demux_packet ::
  "('c, 'd) rohc_lib \<Rightarrow> config \<Rightarrow> int \<Rightarrow> ('c, 'd) state \<Rightarrow> int
     \<Rightarrow> event list \<times> (fault + (('c, 'd) state \<times> int))" where
  "demux_packet lib cfg nread s position =
     (case rd (buffer_from_net s) position of
        None \<Rightarrow> ([], Inl Out_of_bounds)
      | Some c0 \<Rightarrow>
          if FromByte c0 ! 7 then
            (logrec cfg (Error_bad_separator nread), Inr (s, nread))
          else
            (case read_separator (char_signed cfg) (buffer_from_net s) position of
               Inl f \<Rightarrow> ([], Inl f)
             | Inr (packet_length, position1) \<Rightarrow>
                 (case copy_demuxed (buffer_from_net s) (demuxed_packet s) packet_length 0 position1 of
                    Inl f \<Rightarrow> ([], Inl f)
                  | Inr (dm, position2) \<Rightarrow>
                      if position2 > nread then
                        (logrec cfg (Error_demux_bad_length nread),
                         Inr (s\<lparr>demuxed_packet := dm\<rparr>, position2))
                      else
                        (case write_demuxed lib cfg nread (s\<lparr>demuxed_packet := dm\<rparr>) packet_length of
                           (evs, Inl f) \<Rightarrow> (evs, Inl f)
                         | (evs, Inr s1) \<Rightarrow> (evs, Inr (s1, position2))))))"

text \<open>
  Lines 736-928: the loop over the datagram. Each iteration leaves the position
  strictly after where it started, which is what the termination proof shows.
\<close>

function demux_loop ::
  "('c, 'd) rohc_lib \<Rightarrow> config \<Rightarrow> int \<Rightarrow> ('c, 'd) state \<Rightarrow> int
     \<Rightarrow> event list \<times> (fault + ('c, 'd) state)" where
  "demux_loop lib cfg nread s position =
     (if position < nread then
        (case demux_packet lib cfg nread s position of
           (evs, Inl f) \<Rightarrow> (evs, Inl f)
         | (evs, Inr (s1, position1)) \<Rightarrow>
             (case demux_loop lib cfg nread s1 position1 of
                (evs1, r) \<Rightarrow> (evs @ evs1, r)))
      else ([], Inr s))"
  by pat_completeness auto

termination
proof (relation "measure (\<lambda>(lib, cfg, nread, s, position). nat (nread - position))")
  fix lib :: "('c, 'd) rohc_lib" and cfg nread and s :: "('c, 'd) state" and position
    and evs r p and s1 :: "('c, 'd) state" and position1
  assume lt: "position < nread"
    and r1: "(evs, r) = demux_packet lib cfg nread s position"
    and r2: "r = Inr p" and r3: "(s1, position1) = p"
  have copy_mono: "position0 \<le> position2"
    if "copy_demuxed buf dm n l position0 = Inr (dm2, position2)"
    for buf dm n l position0 dm2 position2
    using that
  proof (induction buf dm n l position0 rule: copy_demuxed.induct)
    case (1 buf dm packet_length l position0)
    show ?case
    proof (cases "l < packet_length")
      case True
      with "1.prems" obtain c dm1 where
        c: "rd buf position0 = Some c" and d: "wr dm l c = Some dm1"
        and rr: "copy_demuxed buf dm1 packet_length (l + 1) (position0 + 1) = Inr (dm2, position2)"
        by (subst (asm) copy_demuxed.simps) (auto split: option.splits)
      from "1.IH" [OF True c d rr] show ?thesis by simp
    next
      case False
      with "1.prems" show ?thesis by (subst (asm) copy_demuxed.simps) simp
    qed
  qed
  have sep_mono: "position0 < position2"
    if "read_separator sg buf position0 = Inr (n, position2)" for sg buf position0 n position2
    using that by (auto simp: read_separator_def split: option.splits if_splits)
  from r1 r2 r3 have dp: "demux_packet lib cfg nread s position = (evs, Inr (s1, position1))"
    by simp
  then obtain c0 where c0: "rd (buffer_from_net s) position = Some c0"
    by (cases "rd (buffer_from_net s) position") (simp_all add: demux_packet_def)
  have "position < position1"
  proof (cases "FromByte c0 ! 7")
    case True
    with dp c0 lt show ?thesis by (simp add: demux_packet_def)
  next
    case False
    with dp c0 obtain n p1 where
      rs: "read_separator (char_signed cfg) (buffer_from_net s) position = Inr (n, p1)"
      by (cases "read_separator (char_signed cfg) (buffer_from_net s) position")
         (auto simp: demux_packet_def)
    with dp c0 False obtain dm p2 where
      cp: "copy_demuxed (buffer_from_net s) (demuxed_packet s) n 0 p1 = Inr (dm, p2)"
      by (cases "copy_demuxed (buffer_from_net s) (demuxed_packet s) n 0 p1")
         (auto simp: demux_packet_def)
    from dp c0 False rs cp have "position1 = p2"
      by (simp add: demux_packet_def split: if_splits prod.splits sum.splits)
    with sep_mono [OF rs] copy_mono [OF cp] show ?thesis by simp
  qed
  with lt show "((lib, cfg, nread, s1, position1), lib, cfg, nread, s, position)
      \<in> measure (\<lambda>(lib, cfg, nread, s, position). nat (nread - position))"
    by simp
qed simp

declare demux_loop.simps [simp del]

text \<open>Lines 715-940: a datagram arrived on the socket.\<close>

definition net_to_tap ::
  "('c, 'd) rohc_lib \<Rightarrow> config \<Rightarrow> ('c, 'd) state \<Rightarrow> 16 word \<Rightarrow> byte list
     \<Rightarrow> event list \<times> (fault + ('c, 'd) state)" where
  "net_to_tap lib cfg s sin_port dgram =
     (case recvfrom (buffer_from_net s) dgram of
        (buf, nread_from_net) \<Rightarrow>
          (let s1 = s\<lparr>buffer_from_net := buf\<rparr> in
           if port cfg = sin_port then
             (case demux_loop lib cfg nread_from_net s1 0 of
                (evs, r) \<Rightarrow> (logrec cfg (Rec_muxed nread_from_net) @ evs, r))
           else
             (case cwrite (tap_accepts cfg) buf nread_from_net of
                Inl f \<Rightarrow> ([], Inl f)
              | Inr e \<Rightarrow> (e # logrec cfg (Forward_native nread_from_net), Inr s1))))"

section \<open>Concrete configurations and states\<close>

text \<open>
  The state at the first iteration of the main loop (lines 343-365, 514): nothing is
  accumulated and the time of the last sending is the start time. The arrays are
  not initialised by the program; here they hold zeros.
\<close>

definition initial_state :: "64 word \<Rightarrow> (unit, unit) state" where
  "initial_state t0 =
     \<lparr>buffer_from_net = replicate 2000 0, muxed_packet = replicate 1500 0,
      demuxed_packet = replicate 1500 0, size_muxed_packet = 0,
      num_pkts_stored_from_tap = 0, time_last_sent_in_microsec = t0,
      compressor = (), decompressor = ()\<rparr>"

text \<open>
  The configuration when only the mandatory options are given (lines 351-359), with
  the packet limit \<open>n\<close> that the start-up code settled on, for a platform whose plain
  char has signedness \<open>sg\<close> and a device that accepts every write.
\<close>

definition config_of :: "bool \<Rightarrow> bool \<Rightarrow> int \<Rightarrow> config" where
  "config_of sg rohc n =
     \<lparr>port = 55555, compress_headers = rohc, limit_numpackets_tap = n,
      size_threshold = 1472, timeout = 100000000, period = 100000000,
      log_file = False, char_signed = sg, tap_accepts = (\<lambda>b. True)\<rparr>"

text \<open>
  A library whose decompressor answers every packet with success and an empty output
  buffer, as the ROHC library does for a feedback-only packet or a non-final segment.
\<close>

definition feedback_only_rohc :: "(unit, unit) rohc_lib" where
  "feedback_only_rohc =
     \<lparr>rohc_compress4 = (\<lambda>c pkt. (ROHC_STATUS_OK, pkt, c)),
      rohc_decompress3 = (\<lambda>d pkt. (ROHC_STATUS_OK, [], d))\<rparr>"

text \<open>The bytes that \<open>store_separator\<close> writes for a packet of \<open>n\<close> bytes.\<close>

definition separator_bytes :: "int \<Rightarrow> byte list" where
  "separator_bytes n =
     (if n < 64 then [of_int n] else [of_int (n div 256 + 64), of_int (n mod 256)])"

section \<open>Bundles and what the accumulator holds\<close>

text \<open>
  The bytes one packet takes in a bundle, and the bundle of a list of packets.
\<close>

definition frame :: "byte list \<Rightarrow> byte list" where
  "frame p = separator_bytes (int (length p)) @ p"

definition bundle_of :: "byte list list \<Rightarrow> byte list" where
  "bundle_of ps = concat (map frame ps)"

text \<open>The packets written to the tap and the datagrams sent, among the events.\<close>

fun tap_writes :: "event list \<Rightarrow> byte list list" where
  "tap_writes [] = []"
| "tap_writes (Cwrite b # evs) = b # tap_writes evs"
| "tap_writes (e # evs) = tap_writes evs"

fun datagrams :: "event list \<Rightarrow> byte list list" where
  "datagrams [] = []"
| "datagrams (Sendto b # evs) = b # datagrams evs"
| "datagrams (e # evs) = datagrams evs"

text \<open>
  The accumulator holds the packets \<open>ps\<close>: the first \<open>size_muxed_packet\<close> bytes of
  \<^verbatim>\<open>muxed_packet\<close> are the bundle of \<open>ps\<close>, and the packet counter is their number.
\<close>

definition accumulated :: "('c, 'd) state \<Rightarrow> byte list list \<Rightarrow> bool" where
  "accumulated s ps \<longleftrightarrow>
     length (muxed_packet s) = nat MTU
     \<and> size_muxed_packet s = int (length (bundle_of ps))
     \<and> take (length (bundle_of ps)) (muxed_packet s) = bundle_of ps
     \<and> num_pkts_stored_from_tap s = int (length ps)"

section \<open>Array copies in closed form\<close>

lemma take_Suc_update: "k < length xs \<Longrightarrow> take (Suc k) (xs[k := v]) = take k xs @ [v]"
  by (simp add: take_Suc_conv_app_nth)

lemma store_packet_ok:
  "0 \<le> sz \<Longrightarrow> nat sz + length p \<le> length mp \<Longrightarrow>
   store_packet mp sz p
     = Inr (take (nat sz) mp @ p @ drop (nat sz + length p) mp, sz + int (length p))"
proof (induction p arbitrary: mp sz)
  case Nil
  then show ?case by simp
next
  case (Cons b bs)
  from Cons.prems have lt: "nat sz < length mp" by simp
  with Cons.prems have w: "wr mp sz b = Some (mp[nat sz := b])"
    by (simp add: wr_def)
  have n1: "nat (sz + 1) = Suc (nat sz)" using Cons.prems by simp
  from Cons.prems have "store_packet (mp[nat sz := b]) (sz + 1) bs
      = Inr (take (nat (sz + 1)) (mp[nat sz := b]) @ bs
              @ drop (nat (sz + 1) + length bs) (mp[nat sz := b]), sz + 1 + int (length bs))"
    by (intro Cons.IH) (simp_all add: n1)
  with w lt show ?case
    by (simp add: n1 take_Suc_update)
qed

lemma store_packet_overflow:
  "0 \<le> sz \<Longrightarrow> nat sz \<le> length mp \<Longrightarrow> length mp < nat sz + length p
     \<Longrightarrow> store_packet mp sz p = Inl Out_of_bounds"
proof (induction p arbitrary: mp sz)
  case Nil
  then show ?case by simp
next
  case (Cons b bs)
  show ?case
  proof (cases "nat sz < length mp")
    case True
    with Cons.prems have w: "wr mp sz b = Some (mp[nat sz := b])"
      by (simp add: wr_def)
    from Cons.prems True have "store_packet (mp[nat sz := b]) (sz + 1) bs = Inl Out_of_bounds"
      by (intro Cons.IH) (simp_all add: nat_add_distrib)
    with w show ?thesis by simp
  next
    case False
    with Cons.prems have "wr mp sz b = None" by (simp add: wr_def)
    then show ?thesis by simp
  qed
qed

lemma copy_demuxed_ok:
  "0 \<le> l \<Longrightarrow> l \<le> n \<Longrightarrow> n \<le> int (length dm) \<Longrightarrow> 0 \<le> pos
     \<Longrightarrow> pos + (n - l) \<le> int (length buf) \<Longrightarrow>
   copy_demuxed buf dm n l pos
     = Inr (take (nat l) dm @ take (nat (n - l)) (drop (nat pos) buf) @ drop (nat n) dm,
            pos + (n - l))"
proof (induction buf dm n l pos rule: copy_demuxed.induct)
  case (1 buf dm n l pos)
  show ?case
  proof (cases "l < n")
    case False
    with "1.prems" have "l = n" by simp
    then show ?thesis by (subst copy_demuxed.simps) simp
  next
    case True
    with "1.prems" have r: "rd buf pos = Some (buf ! nat pos)"
      and w: "wr dm l (buf ! nat pos) = Some (dm[nat l := buf ! nat pos])"
      by (simp_all add: rd_def wr_def)
    have nl: "nat (l + 1) = Suc (nat l)" and np: "nat (pos + 1) = Suc (nat pos)"
      and nn: "nat (n - l) = Suc (nat (n - (l + 1)))"
      using "1.prems" True by simp_all
    from "1.prems" True have lt: "nat l < length dm" "nat pos < length buf" "nat l < nat n"
      by simp_all
    from "1.prems" True
    have "copy_demuxed buf (dm[nat l := buf ! nat pos]) n (l + 1) (pos + 1)
        = Inr (take (nat (l + 1)) (dm[nat l := buf ! nat pos])
                @ take (nat (n - (l + 1))) (drop (nat (pos + 1)) buf)
                @ drop (nat n) (dm[nat l := buf ! nat pos]),
               pos + 1 + (n - (l + 1)))"
      by (intro "1.IH" [OF True r w]) simp_all
    moreover have "take (nat (n - l)) (drop (nat pos) buf)
        = buf ! nat pos # take (nat (n - (l + 1))) (drop (Suc (nat pos)) buf)"
      using lt by (subst nn) (simp add: Cons_nth_drop_Suc [symmetric])
    ultimately show ?thesis
      using True r w lt
      by (subst copy_demuxed.simps) (simp add: nl np take_Suc_update)
  qed
qed

lemma copy_demuxed_fault:
  "0 \<le> l \<Longrightarrow> l < n \<Longrightarrow> 0 \<le> pos
     \<Longrightarrow> int (length dm) < n \<or> int (length buf) < pos + (n - l) \<Longrightarrow>
   copy_demuxed buf dm n l pos = Inl Out_of_bounds"
proof (induction buf dm n l pos rule: copy_demuxed.induct)
  case (1 buf dm n l pos)
  show ?case
  proof (cases "rd buf pos")
    case None
    with "1.prems" show ?thesis by (subst copy_demuxed.simps) simp
  next
    case (Some c)
    show ?thesis
    proof (cases "wr dm l c")
      case None
      with Some "1.prems" show ?thesis by (subst copy_demuxed.simps) simp
    next
      case (Some dm1)
      from \<open>rd buf pos = Some c\<close> have pb: "pos < int (length buf)"
        by (simp add: rd_def split: if_splits)
      from Some have ld: "l < int (length dm)" and dm1: "length dm1 = length dm"
        by (auto simp: wr_def split: if_splits)
      from "1.prems" pb ld have l1: "l + 1 < n" by auto
      from "1.prems" l1 dm1
      have "copy_demuxed buf dm1 n (l + 1) (pos + 1) = Inl Out_of_bounds"
        by (intro "1.IH" [OF _ \<open>rd buf pos = Some c\<close> Some]) auto
      with \<open>rd buf pos = Some c\<close> Some "1.prems" show ?thesis
        by (subst copy_demuxed.simps) simp
    qed
  qed
qed

section \<open>The separator and the accumulation in closed form\<close>

lemma FromByte_7: "FromByte c ! 7 = bit c 7"
  by (simp add: FromByte_def and_exp_eq_0_iff_not_bit push_bit_eq_mult)

lemma FromByte_6: "FromByte c ! 6 = bit c 6"
  by (simp add: FromByte_def and_exp_eq_0_iff_not_bit push_bit_eq_mult)

lemma update_at_take: "k < length xs \<Longrightarrow> xs[k := v] = take k xs @ v # drop (Suc k) xs"
  by (simp add: upd_conv_take_nth_drop)

lemma store_separator_ok:
  assumes "0 \<le> sz" and "nat sz + length (separator_bytes n) \<le> length mp"
  shows "store_separator mp sz n
     = Inr (take (nat sz) mp @ separator_bytes n @ drop (nat sz + length (separator_bytes n)) mp,
            sz + int (length (separator_bytes n)))"
proof (cases "n < 64")
  case True
  with assms have lt: "nat sz < length mp" by (simp add: separator_bytes_def)
  with assms True show ?thesis
    by (simp add: store_separator_def separator_bytes_def wr_def update_at_take)
next
  case False
  with assms have lt: "Suc (nat sz) < length mp" by (simp add: separator_bytes_def)
  have n1: "nat (sz + 1) = Suc (nat sz)" using assms by simp
  have "(mp[nat sz := a])[Suc (nat sz) := b]
      = take (nat sz) mp @ a # b # drop (Suc (Suc (nat sz))) mp" for a b
  proof -
    have "(mp[nat sz := a])[Suc (nat sz) := b]
        = take (Suc (nat sz)) (mp[nat sz := a]) @ b # drop (Suc (Suc (nat sz))) (mp[nat sz := a])"
      using lt by (simp add: update_at_take)
    also have "\<dots> = take (nat sz) mp @ a # b # drop (Suc (Suc (nat sz))) mp"
      using lt by (simp add: take_Suc_update)
    finally show ?thesis .
  qed
  with assms False lt show ?thesis
    by (simp add: store_separator_def separator_bytes_def wr_def n1)
qed

lemma store_separator_overflow:
  "0 \<le> sz \<Longrightarrow> length mp < nat sz + length (separator_bytes n)
     \<Longrightarrow> store_separator mp sz n = Inl Out_of_bounds"
  by (auto simp: store_separator_def separator_bytes_def wr_def split: if_splits)

lemma accumulate_ok:
  assumes "0 \<le> size_muxed_packet s"
    and "nat (size_muxed_packet s) + length (separator_bytes (int (length p))) + length p
           \<le> length (muxed_packet s)"
  shows "accumulate s p
     = Inr (s\<lparr>muxed_packet :=
                 take (nat (size_muxed_packet s)) (muxed_packet s)
                 @ separator_bytes (int (length p)) @ p
                 @ drop (nat (size_muxed_packet s) + length (separator_bytes (int (length p)))
                          + length p) (muxed_packet s),
               size_muxed_packet :=
                 size_muxed_packet s + int (length (separator_bytes (int (length p))))
                   + int (length p),
               num_pkts_stored_from_tap := num_pkts_stored_from_tap s + 1\<rparr>)"
proof -
  let ?sz = "size_muxed_packet s" and ?mp = "muxed_packet s"
  let ?sep = "separator_bytes (int (length p))"
  let ?mp1 = "take (nat ?sz) ?mp @ ?sep @ drop (nat ?sz + length ?sep) ?mp"
  from assms have a: "store_separator ?mp ?sz (int (length p)) = Inr (?mp1, ?sz + int (length ?sep))"
    by (intro store_separator_ok) simp_all
  have n: "nat (?sz + int (length ?sep)) = nat ?sz + length ?sep"
    using assms by (simp add: nat_add_distrib)
  have len1: "length ?mp1 = length ?mp" using assms by simp
  from assms have b: "store_packet ?mp1 (?sz + int (length ?sep)) p
      = Inr (take (nat ?sz + length ?sep) ?mp1 @ p @ drop (nat ?sz + length ?sep + length p) ?mp1,
             ?sz + int (length ?sep) + int (length p))"
    using store_packet_ok [of "?sz + int (length ?sep)" p ?mp1] by (simp add: n len1)
  have t: "take (nat ?sz + length ?sep) ?mp1 = take (nat ?sz) ?mp @ ?sep"
    using assms by simp
  have d: "drop (nat ?sz + length ?sep + length p) ?mp1 = drop (nat ?sz + length ?sep + length p) ?mp"
    using assms by (simp add: add.commute add.left_commute)
  from b t d have b': "store_packet ?mp1 (?sz + int (length ?sep)) p
      = Inr (take (nat ?sz) ?mp @ ?sep @ p @ drop (nat ?sz + length ?sep + length p) ?mp,
             ?sz + int (length ?sep) + int (length p))"
    by simp
  show ?thesis
    by (simp only: accumulate_def a b' sum.case prod.case)
qed

lemma accumulate_overflow:
  assumes "0 \<le> size_muxed_packet s" and "nat (size_muxed_packet s) \<le> length (muxed_packet s)"
    and "length (muxed_packet s)
           < nat (size_muxed_packet s) + length (separator_bytes (int (length p))) + length p"
  shows "accumulate s p = Inl Out_of_bounds"
proof (cases "length (muxed_packet s)
                < nat (size_muxed_packet s) + length (separator_bytes (int (length p)))")
  case True
  with assms show ?thesis by (simp add: accumulate_def store_separator_overflow)
next
  case False
  let ?sz = "size_muxed_packet s" and ?mp = "muxed_packet s"
  let ?sep = "separator_bytes (int (length p))"
  let ?mp1 = "take (nat ?sz) ?mp @ ?sep @ drop (nat ?sz + length ?sep) ?mp"
  from assms False
  have a: "store_separator ?mp ?sz (int (length p)) = Inr (?mp1, ?sz + int (length ?sep))"
    by (intro store_separator_ok) simp_all
  have n: "nat (?sz + int (length ?sep)) = nat ?sz + length ?sep"
    using assms by (simp add: nat_add_distrib)
  have len1: "length ?mp1 = length ?mp" using assms False by simp
  from assms False have "store_packet ?mp1 (?sz + int (length ?sep)) p = Inl Out_of_bounds"
    by (intro store_packet_overflow) (simp_all add: n len1)
  then show ?thesis by (simp only: accumulate_def a sum.case prod.case)
qed

section \<open>Evaluation on concrete states\<close>

lemma initial_state_sel [simp]:
  "buffer_from_net (initial_state t0) = replicate 2000 0"
  "muxed_packet (initial_state t0) = replicate 1500 0"
  "demuxed_packet (initial_state t0) = replicate 1500 0"
  "size_muxed_packet (initial_state t0) = 0"
  "num_pkts_stored_from_tap (initial_state t0) = 0"
  "time_last_sent_in_microsec (initial_state t0) = t0"
  by (simp_all add: initial_state_def)

lemma config_of_sel [simp]:
  "port (config_of sg rohc n) = 55555"
  "compress_headers (config_of sg rohc n) = rohc"
  "limit_numpackets_tap (config_of sg rohc n) = n"
  "size_threshold (config_of sg rohc n) = 1472"
  "timeout (config_of sg rohc n) = 100000000"
  "period (config_of sg rohc n) = 100000000"
  "log_file (config_of sg rohc n) = False"
  "char_signed (config_of sg rohc n) = sg"
  "tap_accepts (config_of sg rohc n) b = True"
  by (simp_all add: config_of_def)

lemmas demux_eval =
  demux_loop.simps demux_packet_def rd_def FromByte_7 FromByte_6 read_separator_def
  char_val_def write_demuxed_def cwrite_def logrec_def smod_int_alt_def

lemma copy_demuxed_none: "n \<le> l \<Longrightarrow> copy_demuxed buf dm n l pos = Inr (dm, pos)"
  by (subst copy_demuxed.simps) simp

lemmas tap_eval =
  tap_to_net_def cread_def BUFSIZE_def compress_packet_def mtu_flush_def
  predicted_size_muxed_packet_def MTU_def sendto_def trigger_def logrec_def
  separator_bytes_def Let_def

lemmas net_eval = net_to_tap_def recvfrom_def BUFSIZE_def demux_eval

section \<open>The separator read back, the demultiplexing of a bundle, the accumulator\<close>

lemma char_val_small:
  "0 \<le> k \<Longrightarrow> k < 128 \<Longrightarrow> char_val sg (of_int k :: byte) = k"
  by (simp add: char_val_def uint_word_of_int sint_sbintrunc' signed_take_bit_int_eq_self)

lemma char_val_unsigned:
  "0 \<le> k \<Longrightarrow> k < 256 \<Longrightarrow> char_val False (of_int k :: byte) = k"
  by (simp add: char_val_def uint_word_of_int)

lemma bit6_of_int:
  "0 \<le> k \<Longrightarrow> k < 128 \<Longrightarrow> bit (of_int k :: byte) 6 \<longleftrightarrow> 64 \<le> k"
proof -
  assume a: "0 \<le> k" "k < 128"
  have "bit (of_int k :: byte) 6 \<longleftrightarrow> bit k 6" by (simp add: bit_word_of_int_iff)
  also have "\<dots> \<longleftrightarrow> odd (k div 64)" by (simp add: bit_iff_odd)
  also from a have "\<dots> \<longleftrightarrow> 64 \<le> k" by presburger
  finally show ?thesis .
qed

lemma bit7_of_int:
  "0 \<le> k \<Longrightarrow> k < 128 \<Longrightarrow> \<not> bit (of_int k :: byte) 7"
proof -
  assume a: "0 \<le> k" "k < 128"
  have "bit (of_int k :: byte) 7 \<longleftrightarrow> bit k 7" by (simp add: bit_word_of_int_iff)
  also have "\<dots> \<longleftrightarrow> odd (k div 128)" by (simp add: bit_iff_odd)
  also from a have "\<dots> \<longleftrightarrow> False" by simp
  finally show ?thesis by simp
qed

lemma smod_small: "0 \<le> k \<Longrightarrow> k < m \<Longrightarrow> (k :: int) smod m = k"
  by (simp add: smod_int_alt_def sgn_if)

lemma rd_append_at: "rd (pre @ c # post) (int (length pre)) = Some c"
  by (simp add: rd_def)

lemma rd_append_at_Suc: "rd (pre @ c # d # post) (int (length pre) + 1) = Some d"
  by (simp add: rd_def nth_append nat_add_distrib)

lemma read_separator_append:
  assumes "0 \<le> n" and "n \<le> 16383" and "sg \<Longrightarrow> n < 64 \<or> n mod 256 < 128"
  shows "read_separator sg (pre @ separator_bytes n @ post) (int (length pre))
           = Inr (n, int (length pre) + int (length (separator_bytes n)))"
proof (cases "n < 64")
  case True
  with assms show ?thesis
    by (simp add: read_separator_def separator_bytes_def rd_append_at FromByte_6 bit6_of_int
        char_val_small smod_small)
next
  case False
  let ?h = "n div 256 + 64"
  from assms False have h: "0 \<le> ?h" "?h < 128" "64 \<le> ?h" by simp_all
  have l: "char_val sg (of_int (n mod 256) :: byte) = n mod 256"
  proof (cases sg)
    case True
    with assms False have "n mod 256 < 128" by simp
    then show ?thesis by (simp add: char_val_small)
  next
    case False
    then show ?thesis by (simp add: char_val_unsigned)
  qed
  have m: "?h smod 64 = n div 256"
    using h by (simp add: smod_int_alt_def)
  from False h show ?thesis
    by (simp add: read_separator_def separator_bytes_def rd_append_at rd_append_at_Suc
        FromByte_6 bit6_of_int char_val_small l m del: of_int_add)
qed

lemma separator_bytes_Cons:
  "\<exists>c cs. separator_bytes n = c # cs \<and> (0 \<le> n \<longrightarrow> n \<le> 16383 \<longrightarrow> \<not> bit c 7)"
proof (cases "n < 64")
  case True
  then have "separator_bytes n = [of_int n]" by (simp add: separator_bytes_def)
  moreover from True have "0 \<le> n \<longrightarrow> \<not> bit (of_int n :: byte) 7"
    using bit7_of_int [of n] by simp
  ultimately show ?thesis by blast
next
  case False
  then have "separator_bytes n = [of_int (n div 256 + 64), of_int (n mod 256)]"
    by (simp add: separator_bytes_def)
  moreover from False have "n \<le> 16383 \<longrightarrow> \<not> bit (of_int (n div 256 + 64) :: byte) 7"
    using bit7_of_int [of "n div 256 + 64"] by simp
  ultimately show ?thesis by blast
qed

lemma demux_packet_frame:
  assumes nc: "\<not> compress_headers cfg"
    and len: "length p \<le> 16383"
    and sg: "char_signed cfg \<Longrightarrow> length p < 64 \<or> int (length p) mod 256 < 128"
    and buf: "buffer_from_net s = pre @ frame p @ post"
    and fits: "int (length (pre @ frame p)) \<le> nread"
    and dm: "length p \<le> length (demuxed_packet s)"
    and acc: "tap_accepts cfg p"
  shows "demux_packet lib cfg nread s (int (length pre))
           = (Cwrite p # logrec cfg (Sent_demuxed (int (length p))),
              Inr (s\<lparr>demuxed_packet := p @ drop (length p) (demuxed_packet s)\<rparr>,
                   int (length (pre @ frame p))))"
proof -
  let ?n = "int (length p)"
  let ?sep = "separator_bytes ?n"
  from separator_bytes_Cons [of ?n] len obtain c cs where
    sep: "?sep = c # cs" and c7: "\<not> bit c 7"
    by auto
  have b: "buffer_from_net s = pre @ ?sep @ (p @ post)"
    using buf by (simp add: frame_def)
  have r0: "rd (buffer_from_net s) (int (length pre)) = Some c"
    unfolding b sep by (simp add: rd_append_at)
  from len sg have rs: "read_separator (char_signed cfg) (buffer_from_net s) (int (length pre))
      = Inr (?n, int (length pre) + int (length ?sep))"
    unfolding b by (intro read_separator_append) auto
  have cp: "copy_demuxed (buffer_from_net s) (demuxed_packet s) ?n 0
              (int (length pre) + int (length ?sep))
      = Inr (p @ drop (length p) (demuxed_packet s), int (length pre) + int (length ?sep) + ?n)"
  proof -
    have "nat (int (length pre) + int (length ?sep)) = length (pre @ ?sep)"
      by (simp add: nat_add_distrib)
    moreover have "take (length p) (drop (length (pre @ ?sep)) (buffer_from_net s)) = p"
      unfolding b by simp
    moreover have "int (length pre) + int (length ?sep) + (?n - 0)
        \<le> int (length (buffer_from_net s))"
      unfolding b by simp
    ultimately show ?thesis
      using dm copy_demuxed_ok [of 0 ?n "demuxed_packet s" "int (length pre) + int (length ?sep)"
          "buffer_from_net s"]
      by simp
  qed
  have pos: "int (length pre) + int (length ?sep) + ?n = int (length (pre @ frame p))"
    by (simp add: frame_def)
  from nc dm acc have w: "write_demuxed lib cfg nread
        (s\<lparr>demuxed_packet := p @ drop (length p) (demuxed_packet s)\<rparr>) ?n
      = (Cwrite p # logrec cfg (Sent_demuxed ?n),
         Inr (s\<lparr>demuxed_packet := p @ drop (length p) (demuxed_packet s)\<rparr>))"
    by (simp add: write_demuxed_def cwrite_def)
  from fits pos have nf: "\<not> int (length pre) + int (length ?sep) + ?n > nread" by simp
  show ?thesis
    unfolding demux_packet_def r0 rs
    using c7 nf by (simp add: FromByte_7 cp w pos)
qed

lemma tap_writes_append: "tap_writes (xs @ ys) = tap_writes xs @ tap_writes ys"
  by (induction xs rule: tap_writes.induct) simp_all

lemma tap_writes_logrec: "tap_writes (logrec cfg r) = []"
  by (simp add: logrec_def)

lemma datagrams_append: "datagrams (xs @ ys) = datagrams xs @ datagrams ys"
  by (induction xs rule: datagrams.induct) simp_all

lemma datagrams_logrec: "datagrams (logrec cfg r) = []"
  by (simp add: logrec_def)

lemma length_frame_pos: "0 < length (frame p)"
  by (simp add: frame_def separator_bytes_def)

lemma bundle_of_Cons: "bundle_of (p # ps) = frame p @ bundle_of ps"
  by (simp add: bundle_of_def)

lemma demux_loop_bundle:
  assumes nc: "\<not> compress_headers cfg"
    and ok: "\<forall>p\<in>set ps. length p \<le> 16383 \<and> length p \<le> length (demuxed_packet s)
               \<and> (char_signed cfg \<longrightarrow> length p < 64 \<or> int (length p) mod 256 < 128)
               \<and> tap_accepts cfg p"
    and buf: "buffer_from_net s = pre @ bundle_of ps @ post"
    and nread: "nread = int (length (pre @ bundle_of ps))"
  shows "\<exists>dm. demux_loop lib cfg nread s (int (length pre))
               = (concat (map (\<lambda>p. Cwrite p # logrec cfg (Sent_demuxed (int (length p)))) ps),
                  Inr (s\<lparr>demuxed_packet := dm\<rparr>))
             \<and> length dm = length (demuxed_packet s)"
  using ok buf nread
proof (induction ps arbitrary: pre s)
  case Nil
  then have "demux_loop lib cfg nread s (int (length pre)) = ([], Inr s)"
    by (subst demux_loop.simps) (simp add: bundle_of_def)
  then have "demux_loop lib cfg nread s (int (length pre))
               = ([], Inr (s\<lparr>demuxed_packet := demuxed_packet s\<rparr>))"
    by simp
  then show ?case by (intro exI [of _ "demuxed_packet s"]) simp
next
  case (Cons p ps)
  let ?s1 = "s\<lparr>demuxed_packet := p @ drop (length p) (demuxed_packet s)\<rparr>"
  let ?ev = "Cwrite p # logrec cfg (Sent_demuxed (int (length p)))"
  from Cons.prems have p: "length p \<le> 16383" "length p \<le> length (demuxed_packet s)"
    "char_signed cfg \<Longrightarrow> length p < 64 \<or> int (length p) mod 256 < 128"
    "tap_accepts cfg p"
    by auto
  have b: "buffer_from_net s = pre @ frame p @ (bundle_of ps @ post)"
    using Cons.prems by (simp add: bundle_of_Cons)
  have fits: "int (length (pre @ frame p)) \<le> nread"
    using Cons.prems by (simp add: bundle_of_Cons)
  have one: "demux_packet lib cfg nread s (int (length pre))
      = (?ev, Inr (?s1, int (length (pre @ frame p))))"
    by (rule demux_packet_frame [OF nc p(1) p(3) b fits p(2) p(4)])
  have lt: "int (length pre) < nread"
  proof -
    have "0 < length (frame p)" by (rule length_frame_pos)
    moreover have "nread = int (length pre) + int (length (frame p)) + int (length (bundle_of ps))"
      using Cons.prems(3) by (simp add: bundle_of_Cons)
    ultimately show ?thesis by linarith
  qed
  have len1: "length (demuxed_packet ?s1) = length (demuxed_packet s)"
    using p by simp
  have "\<exists>dm. demux_loop lib cfg nread ?s1 (int (length (pre @ frame p)))
               = (concat (map (\<lambda>p. Cwrite p # logrec cfg (Sent_demuxed (int (length p)))) ps),
                  Inr (?s1\<lparr>demuxed_packet := dm\<rparr>))
             \<and> length dm = length (demuxed_packet ?s1)"
  proof (rule Cons.IH)
    show "\<forall>p\<in>set ps. length p \<le> 16383 \<and> length p \<le> length (demuxed_packet ?s1)
               \<and> (char_signed cfg \<longrightarrow> length p < 64 \<or> int (length p) mod 256 < 128)
               \<and> tap_accepts cfg p"
      using Cons.prems(1) len1 by simp
    show "buffer_from_net ?s1 = (pre @ frame p) @ bundle_of ps @ post"
      using b by simp
    show "nread = int (length ((pre @ frame p) @ bundle_of ps))"
      using Cons.prems by (simp add: bundle_of_Cons)
  qed
  then obtain dm where
    rest: "demux_loop lib cfg nread ?s1 (int (length (pre @ frame p)))
               = (concat (map (\<lambda>p. Cwrite p # logrec cfg (Sent_demuxed (int (length p)))) ps),
                  Inr (?s1\<lparr>demuxed_packet := dm\<rparr>))"
    and dm: "length dm = length (demuxed_packet ?s1)"
    by blast
  have "demux_loop lib cfg nread s (int (length pre))
      = (?ev @ concat (map (\<lambda>p. Cwrite p # logrec cfg (Sent_demuxed (int (length p)))) ps),
         Inr (s\<lparr>demuxed_packet := dm\<rparr>))"
    using lt rest by (subst demux_loop.simps) (simp add: one)
  with dm len1 show ?case by (intro exI [of _ dm]) simp
qed

lemma net_to_tap_bundle:
  assumes "\<not> compress_headers cfg"
    and "\<forall>p\<in>set ps. length p \<le> 16383 \<and> length p \<le> length (demuxed_packet s)
               \<and> (char_signed cfg \<longrightarrow> length p < 64 \<or> int (length p) mod 256 < 128)
               \<and> tap_accepts cfg p"
    and "length (bundle_of ps) \<le> nat BUFSIZE"
  shows "\<exists>s'. net_to_tap lib cfg s (port cfg) (bundle_of ps)
               = (logrec cfg (Rec_muxed (int (length (bundle_of ps))))
                    @ concat (map (\<lambda>p. Cwrite p # logrec cfg (Sent_demuxed (int (length p)))) ps),
                  Inr s')
             \<and> tap_writes (fst (net_to_tap lib cfg s (port cfg) (bundle_of ps))) = ps"
proof -
  let ?b = "bundle_of ps"
  let ?s1 = "s\<lparr>buffer_from_net := ?b @ drop (length ?b) (buffer_from_net s)\<rparr>"
  have "\<exists>dm. demux_loop lib cfg (int (length ?b)) ?s1 (int (length ([] :: byte list)))
               = (concat (map (\<lambda>p. Cwrite p # logrec cfg (Sent_demuxed (int (length p)))) ps),
                  Inr (?s1\<lparr>demuxed_packet := dm\<rparr>))
             \<and> length dm = length (demuxed_packet ?s1)"
    using assms(1,2) by (intro demux_loop_bundle) simp_all
  then obtain dm where
    d: "demux_loop lib cfg (int (length ?b)) ?s1 0
               = (concat (map (\<lambda>p. Cwrite p # logrec cfg (Sent_demuxed (int (length p)))) ps),
                  Inr (?s1\<lparr>demuxed_packet := dm\<rparr>))"
    by auto
  have w: "tap_writes (concat (map (\<lambda>p. Cwrite p # logrec cfg (Sent_demuxed (int (length p)))) qs))
      = qs" for qs
    by (induction qs) (simp_all add: tap_writes_append tap_writes_logrec)
  from assms(3) have n: "net_to_tap lib cfg s (port cfg) ?b
      = (logrec cfg (Rec_muxed (int (length ?b)))
           @ concat (map (\<lambda>p. Cwrite p # logrec cfg (Sent_demuxed (int (length p)))) ps),
         Inr (?s1\<lparr>demuxed_packet := dm\<rparr>))"
    by (simp add: net_to_tap_def recvfrom_def Let_def d)
  then show ?thesis
    by (simp add: tap_writes_append tap_writes_logrec w)
qed

lemma accumulated_size_le: "accumulated s ps \<Longrightarrow> length (bundle_of ps) \<le> nat MTU"
proof -
  assume a: "accumulated s ps"
  then have e: "take (length (bundle_of ps)) (muxed_packet s) = bundle_of ps"
    and l: "length (muxed_packet s) = nat MTU"
    by (simp_all add: accumulated_def)
  have "length (take (length (bundle_of ps)) (muxed_packet s)) = length (bundle_of ps)"
    by (simp only: e)
  then have "length (bundle_of ps) \<le> length (muxed_packet s)"
    by (simp only: length_take)
  with l show ?thesis by simp
qed

lemma bundle_of_snoc: "bundle_of (ps @ [p]) = bundle_of ps @ frame p"
  by (simp add: bundle_of_def)

lemma accumulated_sendto:
  "accumulated s ps \<Longrightarrow> sendto (muxed_packet s) (size_muxed_packet s) = Inr (Sendto (bundle_of ps))"
  using accumulated_size_le [of s ps] by (simp add: accumulated_def sendto_def MTU_def)

lemma accumulated_reset:
  "accumulated s ps \<Longrightarrow>
   accumulated (s\<lparr>size_muxed_packet := 0, num_pkts_stored_from_tap := 0\<rparr>) []"
  by (simp add: accumulated_def bundle_of_def)

lemma accumulated_accumulate:
  assumes a: "accumulated s ps" and r: "accumulate s p = Inr s'"
  shows "accumulated s' (ps @ [p])"
proof -
  let ?sz = "size_muxed_packet s" and ?mp = "muxed_packet s"
  let ?sep = "separator_bytes (int (length p))"
  from a have sz: "0 \<le> ?sz" "nat ?sz = length (bundle_of ps)" "nat ?sz \<le> length ?mp"
    and len: "length ?mp = nat MTU" and tk: "take (nat ?sz) ?mp = bundle_of ps"
    and num: "num_pkts_stored_from_tap s = int (length ps)"
    using accumulated_size_le [OF a] by (simp_all add: accumulated_def)
  have fits: "nat ?sz + length ?sep + length p \<le> length ?mp"
  proof (rule ccontr)
    assume "\<not> ?thesis"
    with sz have "accumulate s p = Inl Out_of_bounds"
      by (intro accumulate_overflow) simp_all
    with r show False by simp
  qed
  from accumulate_ok [OF sz(1) fits] r
  have s': "s' = s\<lparr>muxed_packet := take (nat ?sz) ?mp @ ?sep @ p
                        @ drop (nat ?sz + length ?sep + length p) ?mp,
                    size_muxed_packet := ?sz + int (length ?sep) + int (length p),
                    num_pkts_stored_from_tap := num_pkts_stored_from_tap s + 1\<rparr>"
    by simp
  have b: "bundle_of (ps @ [p]) = take (nat ?sz) ?mp @ ?sep @ p"
    by (simp add: bundle_of_snoc frame_def tk)
  have l: "length (bundle_of (ps @ [p])) = nat ?sz + length ?sep + length p"
    by (simp add: bundle_of_snoc frame_def sz)
  have t: "take (nat ?sz + length ?sep + length p)
             (take (nat ?sz) ?mp @ ?sep @ p @ drop (nat ?sz + length ?sep + length p) ?mp)
           = take (nat ?sz) ?mp @ ?sep @ p"
    using sz by simp
  show ?thesis
    unfolding accumulated_def s' l
    using fits len sz num t b by (simp add: l)
qed

lemma compress_packet_accumulated:
  assumes "compress_packet lib cfg s pkt = (ev1, s1, p)"
  shows "accumulated s1 ps = accumulated s ps" and "datagrams ev1 = []"
    and "\<not> compress_headers cfg \<Longrightarrow> p = pkt"
  using assms
  by (auto simp: compress_packet_def datagrams_logrec accumulated_def
      split: if_splits prod.splits)

lemma mtu_flush_accumulated:
  assumes "accumulated s ps"
  shows "\<exists>ev2 s2 sent ps2. mtu_flush cfg s n = (ev2, Inr s2) \<and> accumulated s2 ps2
           \<and> concat sent @ ps2 = ps \<and> datagrams ev2 = map bundle_of sent
           \<and> (\<forall>b\<in>set (datagrams ev2). int (length b) \<le> MTU)"
proof (cases "predicted_size_muxed_packet (size_muxed_packet s) n > MTU")
  case True
  let ?s2 = "s\<lparr>size_muxed_packet := 0, num_pkts_stored_from_tap := 0\<rparr>"
  let ?ev = "Sendto (bundle_of ps)
      # logrec cfg (Sent_muxed (size_muxed_packet s) (num_pkts_stored_from_tap s) [Tag_MTU])"
  from True assms have "mtu_flush cfg s n = (?ev, Inr ?s2)"
    by (simp add: mtu_flush_def accumulated_sendto)
  moreover from assms have "accumulated ?s2 []" by (rule accumulated_reset)
  moreover have "concat [ps] @ [] = ps" by simp
  moreover have "datagrams ?ev = map bundle_of [ps]" by (simp add: datagrams_logrec)
  moreover have "\<forall>b\<in>set (datagrams ?ev). int (length b) \<le> MTU"
    using accumulated_size_le [OF assms] by (simp add: datagrams_logrec MTU_def)
  ultimately show ?thesis by blast
next
  case False
  then have "mtu_flush cfg s n = ([], Inr s)" by (simp add: mtu_flush_def)
  moreover have "concat [] @ ps = ps" by simp
  moreover have "datagrams [] = map bundle_of []" by simp
  moreover have "\<forall>b\<in>set (datagrams []). int (length b) \<le> MTU" by simp
  ultimately show ?thesis using assms by blast
qed

lemma trigger_accumulated:
  assumes "accumulated s ps"
  shows "\<exists>ev3 s3 sent ps3. trigger cfg s t = (ev3, Inr s3) \<and> accumulated s3 ps3
           \<and> concat sent @ ps3 = ps \<and> datagrams ev3 = map bundle_of sent
           \<and> (\<forall>b\<in>set (datagrams ev3). int (length b) \<le> MTU)"
proof (cases "num_pkts_stored_from_tap s = limit_numpackets_tap cfg
              \<or> size_muxed_packet s > size_threshold cfg
              \<or> t - time_last_sent_in_microsec s > timeout cfg")
  case True
  let ?s3 = "s\<lparr>size_muxed_packet := 0, num_pkts_stored_from_tap := 0,
                time_last_sent_in_microsec := t\<rparr>"
  from True assms obtain tags where
    "trigger cfg s t
       = (Sendto (bundle_of ps)
            # logrec cfg (Sent_muxed (size_muxed_packet s) (num_pkts_stored_from_tap s) tags),
          Inr ?s3)"
    by (simp add: trigger_def accumulated_sendto Let_def)
  moreover from assms have "accumulated ?s3 []" by (simp add: accumulated_def bundle_of_def)
  moreover have "concat [ps] @ [] = ps" by simp
  moreover have "datagrams (Sendto (bundle_of ps)
            # logrec cfg (Sent_muxed (size_muxed_packet s) (num_pkts_stored_from_tap s) tags))
       = map bundle_of [ps]"
    by (simp add: datagrams_logrec)
  moreover have "int (length (bundle_of ps)) \<le> MTU"
    using accumulated_size_le [OF assms] by (simp add: MTU_def)
  ultimately show ?thesis
    by (intro exI [of _ "Sendto (bundle_of ps)
            # logrec cfg (Sent_muxed (size_muxed_packet s) (num_pkts_stored_from_tap s) tags)"]
          exI [of _ ?s3] exI [of _ "[ps]"] exI [of _ "[]"])
       (simp add: datagrams_logrec)
next
  case False
  then have "trigger cfg s t = ([], Inr s)" by (simp add: trigger_def Let_def)
  moreover have "concat [] @ ps = ps" by simp
  moreover have "datagrams [] = map bundle_of []" by simp
  moreover have "\<forall>b\<in>set (datagrams []). int (length b) \<le> MTU" by simp
  ultimately show ?thesis using assms by blast
qed

lemma tap_to_net_accumulated:
  assumes a: "accumulated s ps" and r: "tap_to_net lib cfg s t pkt = (evs, Inr s')"
  shows "\<exists>sent ps' p. accumulated s' ps' \<and> concat sent @ ps' = ps @ [p]
           \<and> (\<not> compress_headers cfg \<longrightarrow> p = cread pkt)
           \<and> datagrams evs = map bundle_of sent
           \<and> (\<forall>b\<in>set (datagrams evs). int (length b) \<le> MTU)"
proof -
  obtain ev1 s1 p where c: "compress_packet lib cfg s (cread pkt) = (ev1, s1, p)"
    by (cases "compress_packet lib cfg s (cread pkt)") auto
  from compress_packet_accumulated [OF c] a
  have a1: "accumulated s1 ps" and d1: "datagrams ev1 = []"
    and p: "\<not> compress_headers cfg \<longrightarrow> p = cread pkt"
    by simp_all
  from mtu_flush_accumulated [OF a1, of cfg "int (length p)"]
  obtain ev2 s2 sent2 ps2 where
    m: "mtu_flush cfg s1 (int (length p)) = (ev2, Inr s2)" and a2: "accumulated s2 ps2"
    and c2: "concat sent2 @ ps2 = ps" and d2: "datagrams ev2 = map bundle_of sent2"
    and l2: "\<forall>b\<in>set (datagrams ev2). int (length b) \<le> MTU"
    by blast
  from r c m obtain s3 where acc: "accumulate s2 p = Inr s3"
    by (cases "accumulate s2 p") (simp_all add: tap_to_net_def Let_def)
  from accumulated_accumulate [OF a2 acc] have a3: "accumulated s3 (ps2 @ [p])" .
  from trigger_accumulated [OF a3, of cfg t]
  obtain ev3 s4 sent3 ps3 where
    tr: "trigger cfg s3 t = (ev3, Inr s4)" and a4: "accumulated s4 ps3"
    and c3: "concat sent3 @ ps3 = ps2 @ [p]" and d3: "datagrams ev3 = map bundle_of sent3"
    and l3: "\<forall>b\<in>set (datagrams ev3). int (length b) \<le> MTU"
    by blast
  from r c m acc tr have s': "s' = s4"
    and evs: "evs = logrec cfg (Rec_native (int (length (cread pkt)))) @ ev1 @ ev2 @ ev3"
    by (simp_all add: tap_to_net_def Let_def)
  have dg: "datagrams evs = map bundle_of (sent2 @ sent3)"
    by (simp add: evs datagrams_append datagrams_logrec d1 d2 d3)
  have cc: "concat (sent2 @ sent3) @ ps3 = ps @ [p]"
    using c2 c3 by simp
  have ll: "\<forall>b\<in>set (datagrams evs). int (length b) \<le> MTU"
    using l2 l3 by (auto simp: evs datagrams_append datagrams_logrec d1)
  from a4 s' cc p dg ll show ?thesis by blast
qed

lemma period_expired_accumulated:
  assumes "accumulated s ps"
  shows "\<exists>evs s'. period_expired cfg s t = (evs, Inr s') \<and> accumulated s' []
           \<and> datagrams evs = (if ps = [] then [] else [bundle_of ps])
           \<and> time_last_sent_in_microsec s' = t"
proof (cases "ps = []")
  case True
  with assms show ?thesis
    by (simp add: period_expired_def accumulated_def)
next
  case False
  with assms have "num_pkts_stored_from_tap s > 0" by (simp add: accumulated_def)
  with assms False show ?thesis
    by (simp add: period_expired_def accumulated_sendto datagrams_logrec)
       (simp add: accumulated_def bundle_of_def)
qed

lemma length_le_bundle_of: "p \<in> set qs \<Longrightarrow> length p \<le> length (bundle_of qs)"
  by (induction qs) (auto simp: bundle_of_Cons frame_def)

lemma initial_state_accumulated: "accumulated (initial_state t0) []"
  by (simp add: accumulated_def bundle_of_def MTU_def)

section \<open>The claims\<close>

subsection \<open>C1: a bundle on a platform with signed char\<close>

text \<open>
  C1, for one packet of 200 bytes sent with the default triggers. The sender emits the
  bundle \<open>0x40 0xC8\<close> followed by the packet. A receiver whose plain char is signed
  decodes the length \<open>-56\<close>, copies nothing, passes the check of line 790 and calls
  \<^verbatim>\<open>cwrite\<close> with a negative count, which ends the program: the packet is not recovered.
\<close>

theorem bundle_roundtrip_signed_char:
  "fst (tap_to_net lib (config_of sg False 1) (initial_state t0) t (replicate 200 0x45))
     = [Sendto (0x40 # 0xC8 # replicate 200 0x45)]
   \<and> net_to_tap lib (config_of True False 1) (initial_state t1) 55555
         (0x40 # 0xC8 # replicate 200 0x45)
     = ([], Inl Exit_writing_data)"
proof
  show "fst (tap_to_net lib (config_of sg False 1) (initial_state t0) t (replicate 200 0x45))
     = [Sendto (0x40 # 0xC8 # replicate 200 0x45)]"
    by (simp add: tap_eval accumulate_ok)
  show "net_to_tap lib (config_of True False 1) (initial_state t1) 55555
         (0x40 # 0xC8 # replicate 200 0x45)
     = ([], Inl Exit_writing_data)"
    by (simp add: net_eval copy_demuxed_none)
qed

subsection \<open>C2: the separator on a platform with signed char\<close>

text \<open>
  C2, at the length 200 and with plain char signed. The separator stored for a packet
  of 200 bytes is \<open>0x40 0xC8\<close>. Line 771 adds \<^verbatim>\<open>buffer_from_net[position+1]\<close>, a plain
  char, to the high part: the byte \<open>0xC8\<close> is read as \<open>-56\<close>, so the decoded length is
  \<open>-56\<close> and not 200. Two bytes are consumed, as the claim says.
\<close>

theorem separator_roundtrip_signed_char:
  "store_separator (replicate 1500 0) 0 200 = Inr (0x40 # 0xC8 # replicate 1498 0, 2)
   \<and> read_separator True (0x40 # 0xC8 # replicate 1498 0) 0 = Inr (- 56, 2)"
  by (simp add: store_separator_ok separator_bytes_def read_separator_def rd_def FromByte_6
      char_val_def smod_int_alt_def)

subsection \<open>C3: a packet that alone passes the MTU\<close>

text \<open>
  C3, for a packet of 1499 bytes offered to the empty accumulator. The predicted size
  is 1501, above the MTU of 1500. Lines 1062-1075 send the accumulated bytes (none) and
  lines 1079-1126 then store the separator and the packet all the same: byte 1500 of
  the packet is written to \<^verbatim>\<open>muxed_packet[1500]\<close>, outside the array, on the way to a
  bundle of 1501 bytes.
\<close>

theorem oversize_packet_overflows:
  "predicted_size_muxed_packet 0 1499 = 1501 \<and> MTU < 1501
   \<and> tap_to_net lib (config_of sg False 1) (initial_state t0) t (replicate 1499 0x45)
       = ([Sendto []], Inl Out_of_bounds)"
  by (simp add: tap_eval accumulate_overflow)

subsection \<open>C4: the time of the last sending after an MTU flush\<close>

text \<open>
  C4, for the flush of lines 1062-1075. The program starts at time 1000 with a packet
  limit of 100. A packet of 1000 bytes is stored at time 2000; a packet of 600 bytes
  arrives at time 3000 and would pass the MTU, so the 1002 accumulated bytes are sent
  first. Right after this flush both counters are 0, but the time of the last sending
  is still 1000, not 3000. It is still 1000 at the end of the event, when the new
  packet has been stored (one packet, 602 bytes).
\<close>

theorem mtu_flush_keeps_time_of_last_sending:
  "\<exists>s1 s2 s3.
     tap_to_net lib (config_of sg False 100) (initial_state 1000) 2000 (replicate 1000 0x45)
       = ([], Inr s1)
     \<and> mtu_flush (config_of sg False 100) s1 600
       = ([Sendto (0x43 # 0xE8 # replicate 1000 0x45)], Inr s2)
     \<and> size_muxed_packet s2 = 0 \<and> num_pkts_stored_from_tap s2 = 0
     \<and> time_last_sent_in_microsec s2 = 1000
     \<and> tap_to_net lib (config_of sg False 100) s1 3000 (replicate 600 0x46)
       = ([Sendto (0x43 # 0xE8 # replicate 1000 0x45)], Inr s3)
     \<and> size_muxed_packet s3 = 602 \<and> num_pkts_stored_from_tap s3 = 1
     \<and> time_last_sent_in_microsec s3 = 1000"
proof -
  have "\<exists>s1. tap_to_net lib (config_of sg False 100) (initial_state 1000) 2000 (replicate 1000 0x45)
            = ([], Inr s1)
          \<and> muxed_packet s1 = 0x43 # 0xE8 # replicate 1000 0x45 @ replicate 498 0
          \<and> size_muxed_packet s1 = 1002 \<and> num_pkts_stored_from_tap s1 = 1
          \<and> time_last_sent_in_microsec s1 = 1000"
    by (simp add: tap_eval accumulate_ok)
  then obtain s1 where
    r1: "tap_to_net lib (config_of sg False 100) (initial_state 1000) 2000 (replicate 1000 0x45)
           = ([], Inr s1)"
    and s1: "muxed_packet s1 = 0x43 # 0xE8 # replicate 1000 0x45 @ replicate 498 0"
      "size_muxed_packet s1 = 1002" "num_pkts_stored_from_tap s1 = 1"
      "time_last_sent_in_microsec s1 = 1000"
    by blast
  have r2: "\<exists>s2. mtu_flush (config_of sg False 100) s1 600
            = ([Sendto (0x43 # 0xE8 # replicate 1000 0x45)], Inr s2)
          \<and> size_muxed_packet s2 = 0 \<and> num_pkts_stored_from_tap s2 = 0
          \<and> time_last_sent_in_microsec s2 = 1000"
    by (simp add: mtu_flush_def predicted_size_muxed_packet_def MTU_def sendto_def logrec_def s1)
  have r3: "\<exists>s3. tap_to_net lib (config_of sg False 100) s1 3000 (replicate 600 0x46)
            = ([Sendto (0x43 # 0xE8 # replicate 1000 0x45)], Inr s3)
          \<and> size_muxed_packet s3 = 602 \<and> num_pkts_stored_from_tap s3 = 1
          \<and> time_last_sent_in_microsec s3 = 1000"
    by (simp add: tap_eval accumulate_ok s1)
  from r1 r2 r3 show ?thesis by blast
qed

subsection \<open>C5: the oversize packet is not dropped\<close>

text \<open>
  C5, for a packet of 1500 bytes offered to the empty accumulator, with a log file open.
  The packet is not dropped: a datagram of zero bytes is sent and logged with the tag
  MTU, and the packet is then stored past the end of \<^verbatim>\<open>muxed_packet\<close>.
\<close>

theorem oversize_packet_not_dropped:
  "tap_to_net lib ((config_of sg False 1)\<lparr>log_file := True\<rparr>) (initial_state t0) t
       (replicate 1500 0x45)
     = ([Log (Rec_native 1500), Sendto [], Log (Sent_muxed 0 0 [Tag_MTU])], Inl Out_of_bounds)"
  by (simp add: tap_eval accumulate_overflow)

subsection \<open>C6: a decompression that succeeds with an empty output\<close>

text \<open>
  C6, for a bundle with one packet \<open>0xAB\<close>, compression in use and a decompressor that
  answers with success and an empty output. The program logs the feedback record and
  then, since line 917 only tests the status, writes the compressed byte \<open>0xAB\<close> to the
  tap interface.
\<close>

theorem empty_decompression_is_written:
  "net_to_tap feedback_only_rohc ((config_of sg True 1)\<lparr>log_file := True\<rparr>) (initial_state t0)
       55555 [0x01, 0xAB]
     = ([Log (Rec_muxed 2), Log (Rec_ROHC_feedback 2), Cwrite [0xAB], Log (Sent_demuxed 1)],
        Inr ((initial_state t0)\<lparr>buffer_from_net := 0x01 # 0xAB # replicate 1998 0,
                                demuxed_packet := 0xAB # replicate 1499 0\<rparr>))"
  by (simp add: net_eval copy_demuxed_ok decompress_packet_def feedback_only_rohc_def)

subsection \<open>C7: the default of the packet-count trigger\<close>

text \<open>
  C7, for two start-ups in which the user leaves the packet limit unset (0) and gives
  one trigger a value other than its default. (1) With a size threshold of 2000
  (\<^verbatim>\<open>-b 2000\<close>) neither line 507 nor line 510 assigns the limit: it stays 0, which is
  neither 1 nor the capacity of 100. (2) With a period of 200000000
  (\<^verbatim>\<open>-P 200000000\<close>) line 507 does not fire, and line 510, which compares the timeout
  twice and the period never, sets the limit to 1, not to the capacity. (3) With the
  limit left at 0, the test \<^verbatim>\<open>num_pkts_stored_from_tap == limit_numpackets_tap\<close> of
  line 1135 is false once a packet is stored: the first packet read from the tap is
  kept in the accumulator and nothing is sent.
\<close>

theorem n_max_left_unset:
  "trigger_defaults 2000 100000000 100000000 0 = 0
   \<and> trigger_defaults 1472 100000000 200000000 0 = 1
   \<and> tap_to_net lib
         ((config_of sg False (trigger_defaults 2000 100000000 100000000 0))
            \<lparr>size_threshold := 2000\<rparr>)
         (initial_state t0) t0 [0x45]
       = ([], Inr ((initial_state t0)\<lparr>muxed_packet := 0x01 # 0x45 # replicate 1498 0,
                                     size_muxed_packet := 2,
                                     num_pkts_stored_from_tap := 1\<rparr>))"
proof (intro conjI)
  show l0: "trigger_defaults 2000 100000000 100000000 0 = 0"
    by (simp add: trigger_defaults_def MAXTHRESHOLD_def MAXTIMEOUT_def MAXPKTS_def)
  show "trigger_defaults 1472 100000000 200000000 0 = 1"
    by (simp add: trigger_defaults_def MAXTHRESHOLD_def MAXTIMEOUT_def MAXPKTS_def)
  show "tap_to_net lib
         ((config_of sg False (trigger_defaults 2000 100000000 100000000 0))
            \<lparr>size_threshold := 2000\<rparr>)
         (initial_state t0) t0 [0x45]
       = ([], Inr ((initial_state t0)\<lparr>muxed_packet := 0x01 # 0x45 # replicate 1498 0,
                                     size_muxed_packet := 2,
                                     num_pkts_stored_from_tap := 1\<rparr>))"
    by (simp add: l0 tap_eval accumulate_ok)
qed

subsection \<open>C8: a declared length that overruns the datagram\<close>

text \<open>
  C8, for a datagram of four bytes: a packet of one byte, then the separator
  \<open>0x46 0x00\<close> that declares 1536 bytes. The first packet is written to the tap
  interface. The copy loop of lines 784-787 runs before the check of line 790 and,
  at its 1501st iteration, writes outside \<^verbatim>\<open>demuxed_packet\<close>.
\<close>

theorem truncated_payload_overruns:
  "net_to_tap lib ((config_of sg False 1)\<lparr>log_file := True\<rparr>) (initial_state t0) 55555
       [0x01, 0x45, 0x46, 0x00]
     = ([Log (Rec_muxed 4), Cwrite [0x45], Log (Sent_demuxed 1)], Inl Out_of_bounds)"
  by (cases sg) (simp_all add: net_eval copy_demuxed_ok copy_demuxed_fault)

subsection \<open>C9: routing by source port\<close>

text \<open>
  C9 (as amended). \<^verbatim>\<open>recvfrom\<close> is given room for \<open>BUFSIZE\<close> = 2000 bytes, so the program
  sees the first 2000 bytes \<open>d\<close> of a datagram, which is the whole datagram when it has
  at most 2000 bytes. These bytes are handed to the demultiplexing loop exactly when
  the source port is the configured port. With any other source port nothing is
  parsed: \<open>d\<close> is passed unchanged to the tap interface in one write of the same
  length; when the device accepts the write that is the only effect besides the log
  record, and when it refuses the program exits.
\<close>

theorem source_port_routing:
  "(let d = take (nat BUFSIZE) dgram;
        s1 = s\<lparr>buffer_from_net := d @ drop (length d) (buffer_from_net s)\<rparr>
    in (length dgram \<le> nat BUFSIZE \<longrightarrow> d = dgram)
       \<and> (port cfg = sin_port \<longrightarrow>
            net_to_tap lib cfg s sin_port dgram
              = (case demux_loop lib cfg (int (length d)) s1 0 of
                   (evs, r) \<Rightarrow> (logrec cfg (Rec_muxed (int (length d))) @ evs, r)))
       \<and> (port cfg \<noteq> sin_port \<longrightarrow>
            net_to_tap lib cfg s sin_port dgram
              = (if tap_accepts cfg d
                 then (Cwrite d # logrec cfg (Forward_native (int (length d))), Inr s1)
                 else ([], Inl Exit_writing_data))))"
proof -
  have "take (min (length dgram) (nat BUFSIZE)) dgram = take (nat BUFSIZE) dgram"
    by (simp add: min_def)
  then show ?thesis
    by (simp add: net_to_tap_def recvfrom_def cwrite_def Let_def)
qed

theorem source_port_routing_witness:
  "net_to_tap feedback_only_rohc (config_of False False 1) (initial_state 0) 55555 [1, 0x45]
     = ([Cwrite [0x45]],
        Inr ((initial_state 0)\<lparr>buffer_from_net := 1 # 0x45 # replicate 1998 0,
                               demuxed_packet := 0x45 # replicate 1499 0\<rparr>))
   \<and> net_to_tap feedback_only_rohc (config_of False False 1) (initial_state 0) 1234 [1, 0x45]
     = ([Cwrite [1, 0x45]],
        Inr ((initial_state 0)\<lparr>buffer_from_net := 1 # 0x45 # replicate 1998 0\<rparr>))
   \<and> net_to_tap feedback_only_rohc ((config_of False False 1)\<lparr>tap_accepts := (\<lambda>b. False)\<rparr>)
         (initial_state 0) 1234 [1, 0x45]
     = ([], Inl Exit_writing_data)"
  using source_port_routing [of "[1, 0x45]" "initial_state 0" "config_of False False 1" 55555
      feedback_only_rohc]
    source_port_routing [of "[1, 0x45]" "initial_state 0" "config_of False False 1" 1234
      feedback_only_rohc]
    source_port_routing [of "[1, 0x45]" "initial_state 0"
      "(config_of False False 1)\<lparr>tap_accepts := (\<lambda>b. False)\<rparr>" 1234 feedback_only_rohc]
  by (simp add: BUFSIZE_def Let_def demux_eval copy_demuxed_ok)

text \<open>
  The claim as stated writes the full datagram, with its length unchanged, whatever
  its size. A datagram of 2001 bytes from another port is written as its first 2000
  bytes.
\<close>

theorem source_port_routing_counterexample:
  "port (config_of False False 1) \<noteq> 1234
   \<and> net_to_tap feedback_only_rohc (config_of False False 1) (initial_state 0) 1234
         (replicate 2001 0x45)
       = ([Cwrite (replicate 2000 0x45)],
          Inr ((initial_state 0)\<lparr>buffer_from_net := replicate 2000 0x45\<rparr>))
   \<and> replicate 2000 0x45 \<noteq> replicate 2001 (0x45 :: byte)"
  by (simp add: net_to_tap_def recvfrom_def cwrite_def BUFSIZE_def logrec_def)

subsection \<open>C10: accesses beyond the received datagram\<close>


section \<open>Further properties of the code\<close>

subsection \<open>The packet limit at start-up\<close>

text \<open>
  Lines 507-510 when the user leaves the packet limit unset (0): the limit becomes
  \<open>MAXPKTS\<close> = 100 when the size threshold, the timeout or the period is strictly below
  its default; otherwise it becomes 1 when the size threshold and the timeout equal
  their defaults (the period is not looked at); otherwise it stays 0. A limit that
  the user did set is not changed.
\<close>

theorem n_max_default:
  "trigger_defaults size_thr tmo per 0 =
     (if size_thr < MAXTHRESHOLD \<or> uint tmo < MAXTIMEOUT \<or> uint per < MAXTIMEOUT then MAXPKTS
      else if size_thr = MAXTHRESHOLD \<and> uint tmo = MAXTIMEOUT then 1
      else 0)
   \<and> MAXPKTS = 100
   \<and> (n \<noteq> 0 \<longrightarrow> trigger_defaults size_thr tmo per n = n)"
  by (simp add: trigger_defaults_def MAXPKTS_def)

theorem n_max_default_witness:
  "trigger_defaults 1472 100000000 100000000 0 = 1
   \<and> trigger_defaults 1472 100000000 5000 0 = 100
   \<and> trigger_defaults 1000 100000000 100000000 7 = 7"
  using n_max_default [of 1472 100000000 100000000 7] n_max_default [of 1472 100000000 5000 7]
    n_max_default [of 1000 100000000 100000000 7]
  by (simp add: MAXTHRESHOLD_def MAXTIMEOUT_def)

subsection \<open>The separator\<close>

text \<open>
  For every length from 0 to 16383 and every position of \<^verbatim>\<open>muxed_packet\<close> with room for
  two bytes, the separator that lines 1083-1118 store is read back by lines 757-780 as
  the same length, and one byte is consumed when the length is below 64, two
  otherwise. On a platform whose plain char is signed this needs the low byte of a
  two-byte length to be below 128.
\<close>

theorem separator_roundtrip:
  assumes "0 \<le> n" and "n \<le> 16383" and "0 \<le> sz" and "nat sz + 2 \<le> length mp"
    and "sg \<longrightarrow> n < 64 \<or> n mod 256 < 128"
  shows "\<exists>mp'. store_separator mp sz n = Inr (mp', sz + (if n < 64 then 1 else 2))
           \<and> read_separator sg mp' sz = Inr (n, sz + (if n < 64 then 1 else 2))"
proof -
  let ?sep = "separator_bytes n"
  let ?mp' = "take (nat sz) mp @ ?sep @ drop (nat sz + length ?sep) mp"
  have l: "int (length ?sep) = (if n < 64 then 1 else 2)"
    by (simp add: separator_bytes_def)
  from assms have "store_separator mp sz n = Inr (?mp', sz + int (length ?sep))"
    by (intro store_separator_ok) (simp_all add: separator_bytes_def)
  moreover from assms have pre: "int (length (take (nat sz) mp)) = sz" by simp
  from assms have "read_separator sg ?mp' (int (length (take (nat sz) mp)))
      = Inr (n, int (length (take (nat sz) mp)) + int (length ?sep))"
    by (intro read_separator_append) auto
  ultimately show ?thesis
    unfolding pre l by blast
qed

theorem separator_roundtrip_witness:
  "(\<exists>mp'. store_separator (replicate 1500 0) 0 63 = Inr (mp', 1)
       \<and> read_separator False mp' 0 = Inr (63, 1))
   \<and> (\<exists>mp'. store_separator (replicate 1500 0) 0 64 = Inr (mp', 2)
       \<and> read_separator False mp' 0 = Inr (64, 2))
   \<and> (\<exists>mp'. store_separator (replicate 1500 0) 0 16383 = Inr (mp', 2)
       \<and> read_separator False mp' 0 = Inr (16383, 2))
   \<and> (\<exists>mp'. store_separator (replicate 1500 0) 0 100 = Inr (mp', 2)
       \<and> read_separator True mp' 0 = Inr (100, 2))"
  using separator_roundtrip [of 63 0 "replicate 1500 0" False]
    separator_roundtrip [of 64 0 "replicate 1500 0" False]
    separator_roundtrip [of 16383 0 "replicate 1500 0" False]
    separator_roundtrip [of 100 0 "replicate 1500 0" True]
  by simp

subsection \<open>What a tap event sends\<close>

text \<open>
  A packet arrives from the tap while the accumulator holds the packets \<open>ps\<close>, and the
  event ends without a fault. Then the datagrams sent are the bundles of consecutive
  groups of \<open>ps\<close> followed by the new packet, in that order, and the accumulator holds
  the packets that follow the last group: nothing is sent twice, lost or reordered.
  Each datagram has at most \<open>MTU\<close> bytes.
\<close>

theorem tap_to_net_bundles:
  assumes "accumulated s ps" and "tap_to_net lib cfg s t pkt = (evs, Inr s')"
  shows "\<exists>sent ps' p. accumulated s' ps' \<and> concat sent @ ps' = ps @ [p]
           \<and> (\<not> compress_headers cfg \<longrightarrow> p = cread pkt)
           \<and> datagrams evs = map bundle_of sent
           \<and> (\<forall>b\<in>set (datagrams evs). int (length b) \<le> MTU)"
  using assms by (rule tap_to_net_accumulated)

theorem tap_to_net_bundles_witness:
  "\<exists>sent ps'. concat sent @ ps' = [replicate 200 0x45]
      \<and> datagrams (fst (tap_to_net feedback_only_rohc (config_of False False 1) (initial_state 7) 9
            (replicate 200 0x45))) = map bundle_of sent"
proof -
  have a: "accumulated (initial_state 7) []"
    by (simp add: accumulated_def bundle_of_def MTU_def)
  have "\<exists>s'. tap_to_net feedback_only_rohc (config_of False False 1) (initial_state 7) 9
      (replicate 200 0x45) = ([Sendto (0x40 # 0xC8 # replicate 200 0x45)], Inr s')"
    by (simp add: tap_eval accumulate_ok)
  then obtain s' where r: "tap_to_net feedback_only_rohc (config_of False False 1)
      (initial_state 7) 9 (replicate 200 0x45) = ([Sendto (0x40 # 0xC8 # replicate 200 0x45)], Inr s')"
    by blast
  from tap_to_net_bundles [OF a r] show ?thesis
    by (auto simp: r cread_def BUFSIZE_def)
qed

text \<open>
  From a state in which the first \<open>size_muxed_packet\<close> bytes of \<^verbatim>\<open>muxed_packet\<close> are a
  bundle, every datagram that a tap event or the expiry of the period hands to
  \<^verbatim>\<open>sendto\<close> has at most \<open>MTU\<close> bytes, whether or not the event ends in a fault: a run
  can pass the MTU only through the out-of-bounds write of a packet that does not
  fit \<^verbatim>\<open>muxed_packet\<close> on its own.
\<close>

theorem sendto_le_MTU:
  assumes a: "accumulated s ps"
  shows "(\<forall>b\<in>set (datagrams (fst (tap_to_net lib cfg s t pkt))). int (length b) \<le> MTU)
       \<and> (\<forall>b\<in>set (datagrams (fst (period_expired cfg s t))). int (length b) \<le> MTU)"
proof
  obtain ev1 s1 p where c: "compress_packet lib cfg s (cread pkt) = (ev1, s1, p)"
    by (cases "compress_packet lib cfg s (cread pkt)") auto
  from compress_packet_accumulated [OF c] a
  have a1: "accumulated s1 ps" and d1: "datagrams ev1 = []"
    by simp_all
  from mtu_flush_accumulated [OF a1, of cfg "int (length p)"]
  obtain ev2 s2 sent2 ps2 where
    m: "mtu_flush cfg s1 (int (length p)) = (ev2, Inr s2)" and a2: "accumulated s2 ps2"
    and l2: "\<forall>b\<in>set (datagrams ev2). int (length b) \<le> MTU"
    by blast
  show "\<forall>b\<in>set (datagrams (fst (tap_to_net lib cfg s t pkt))). int (length b) \<le> MTU"
  proof (cases "accumulate s2 p")
    case (Inl f)
    with c m l2 d1 show ?thesis
      by (simp add: tap_to_net_def Let_def datagrams_append datagrams_logrec)
  next
    case (Inr s3)
    from accumulated_accumulate [OF a2 Inr] have a3: "accumulated s3 (ps2 @ [p])" .
    from trigger_accumulated [OF a3, of cfg t]
    obtain ev3 s4 where tr: "trigger cfg s3 t = (ev3, Inr s4)"
      and l3: "\<forall>b\<in>set (datagrams ev3). int (length b) \<le> MTU"
      by blast
    from c m Inr tr l2 l3 d1 show ?thesis
      by (auto simp: tap_to_net_def Let_def datagrams_append datagrams_logrec)
  qed
  from period_expired_accumulated [OF a, of cfg t] accumulated_size_le [OF a]
  show "\<forall>b\<in>set (datagrams (fst (period_expired cfg s t))). int (length b) \<le> MTU"
    by (auto simp: MTU_def split: if_splits)
qed

theorem sendto_le_MTU_witness:
  "datagrams (fst (tap_to_net feedback_only_rohc (config_of False False 1)
        (initial_state 7) 9 (replicate 200 0x45))) = [0x40 # 0xC8 # replicate 200 0x45]
   \<and> int (length (0x40 # 0xC8 # replicate 200 (0x45 :: byte))) \<le> MTU"
  using sendto_le_MTU [OF initial_state_accumulated,
      of feedback_only_rohc "config_of False False 1" 7 9 "replicate 200 0x45"]
  by (simp add: tap_eval accumulate_ok)

subsection \<open>The state after a flush\<close>

text \<open>
  After a flush by the packet limit, the size threshold or the timeout (lines
  1135-1165), and after the expiry of the period (lines 1172-1198), nothing is
  accumulated and the time of the last sending is the current time; the expiry of the
  period sets that time also when nothing was sent. After the flush of lines
  1062-1075 nothing is accumulated and the time of the last sending is unchanged.
\<close>

theorem flush_resets_accumulator:
  "(trigger cfg s t = (evs, Inr s') \<and> datagrams evs \<noteq> [] \<longrightarrow>
      size_muxed_packet s' = 0 \<and> num_pkts_stored_from_tap s' = 0
      \<and> time_last_sent_in_microsec s' = t)
   \<and> (period_expired cfg s t = (evs, Inr s') \<longrightarrow>
      time_last_sent_in_microsec s' = t
      \<and> (datagrams evs \<noteq> [] \<longrightarrow>
            size_muxed_packet s' = 0 \<and> num_pkts_stored_from_tap s' = 0))
   \<and> (mtu_flush cfg s n = (evs, Inr s') \<and> datagrams evs \<noteq> [] \<longrightarrow>
      size_muxed_packet s' = 0 \<and> num_pkts_stored_from_tap s' = 0
      \<and> time_last_sent_in_microsec s' = time_last_sent_in_microsec s)"
proof -
  have a: "trigger cfg s t = (evs, Inr s') \<and> datagrams evs \<noteq> [] \<longrightarrow>
      size_muxed_packet s' = 0 \<and> num_pkts_stored_from_tap s' = 0
      \<and> time_last_sent_in_microsec s' = t"
    by (auto simp: trigger_def Let_def split: if_splits sum.splits)
  have b: "period_expired cfg s t = (evs, Inr s') \<longrightarrow>
      time_last_sent_in_microsec s' = t
      \<and> (datagrams evs \<noteq> [] \<longrightarrow>
            size_muxed_packet s' = 0 \<and> num_pkts_stored_from_tap s' = 0)"
    by (auto simp: period_expired_def split: if_splits sum.splits)
  have c: "mtu_flush cfg s n = (evs, Inr s') \<and> datagrams evs \<noteq> [] \<longrightarrow>
      size_muxed_packet s' = 0 \<and> num_pkts_stored_from_tap s' = 0
      \<and> time_last_sent_in_microsec s' = time_last_sent_in_microsec s"
    by (auto simp: mtu_flush_def split: if_splits sum.splits)
  from a b c show ?thesis by (intro conjI)
qed

theorem flush_resets_accumulator_witness:
  "\<exists>s1 s2 s3.
     tap_to_net feedback_only_rohc (config_of False False 3) (initial_state 7) 9 [0x45] = ([], Inr s1)
     \<and> period_expired (config_of False False 3) s1 20 = ([Sendto [0x01, 0x45]], Inr s2)
     \<and> size_muxed_packet s2 = 0 \<and> num_pkts_stored_from_tap s2 = 0
     \<and> time_last_sent_in_microsec s2 = 20
     \<and> trigger (config_of False False 1) s1 30 = ([Sendto [0x01, 0x45]], Inr s3)
     \<and> size_muxed_packet s3 = 0 \<and> num_pkts_stored_from_tap s3 = 0
     \<and> time_last_sent_in_microsec s3 = 30"
proof -
  have "\<exists>s1. tap_to_net feedback_only_rohc (config_of False False 3) (initial_state 7) 9 [0x45]
            = ([], Inr s1)
          \<and> muxed_packet s1 = 0x01 # 0x45 # replicate 1498 0
          \<and> size_muxed_packet s1 = 2 \<and> num_pkts_stored_from_tap s1 = 1
          \<and> time_last_sent_in_microsec s1 = 7"
    by (simp add: tap_eval accumulate_ok)
  then obtain s1 :: "(unit, unit) state" where
    r1: "tap_to_net feedback_only_rohc (config_of False False 3) (initial_state 7) 9 [0x45]
           = ([], Inr s1)"
    and s1: "muxed_packet s1 = 0x01 # 0x45 # replicate 1498 0" "size_muxed_packet s1 = 2"
      "num_pkts_stored_from_tap s1 = 1" "time_last_sent_in_microsec s1 = 7"
    by blast
  obtain s2 where r2: "period_expired (config_of False False 3) s1 20
      = ([Sendto [0x01, 0x45]], Inr s2)"
    by (simp add: period_expired_def sendto_def logrec_def s1)
  obtain s3 where r3: "trigger (config_of False False 1) s1 30 = ([Sendto [0x01, 0x45]], Inr s3)"
    by (simp add: trigger_def sendto_def logrec_def s1)
  from flush_resets_accumulator [of "config_of False False 3" s1 20 "[Sendto [0x01, 0x45]]" s2]
    flush_resets_accumulator [of "config_of False False 1" s1 30 "[Sendto [0x01, 0x45]]" s3]
    r1 r2 r3
  show ?thesis by auto
qed

subsection \<open>Demultiplexing\<close>

text \<open>
  With compression off, the demultiplexing of the bundle of the packets \<open>ps\<close> writes
  exactly \<open>ps\<close> to the tap, in order, provided every packet fits \<^verbatim>\<open>demuxed_packet\<close> and
  the bundle fits \<^verbatim>\<open>buffer_from_net\<close>, the device accepts every packet (and, where plain
  char is signed, every length of 64 or more has a low byte below 128).
\<close>

theorem bundle_is_demultiplexed:
  assumes "\<not> compress_headers cfg"
    and "\<forall>p\<in>set ps. length p \<le> 16383 \<and> length p \<le> length (demuxed_packet s)
               \<and> (char_signed cfg \<longrightarrow> length p < 64 \<or> int (length p) mod 256 < 128)
               \<and> tap_accepts cfg p"
    and "length (bundle_of ps) \<le> nat BUFSIZE"
  shows "\<exists>s'. net_to_tap lib cfg s (port cfg) (bundle_of ps)
               = (logrec cfg (Rec_muxed (int (length (bundle_of ps))))
                    @ concat (map (\<lambda>p. Cwrite p # logrec cfg (Sent_demuxed (int (length p)))) ps),
                  Inr s')
             \<and> tap_writes (fst (net_to_tap lib cfg s (port cfg) (bundle_of ps))) = ps"
  using assms by (rule net_to_tap_bundle)

theorem bundle_is_demultiplexed_witness:
  "tap_writes (fst (net_to_tap feedback_only_rohc (config_of False False 1) (initial_state 0) 55555
      (bundle_of [[0x45, 0x46], replicate 200 0x47]))) = [[0x45, 0x46], replicate 200 0x47]"
proof -
  have "\<forall>p\<in>set [[0x45, 0x46], replicate 200 (0x47 :: byte)].
          length p \<le> 16383 \<and> length p \<le> length (demuxed_packet (initial_state 0))
          \<and> (char_signed (config_of False False 1)
                \<longrightarrow> length p < 64 \<or> int (length p) mod 256 < 128)
          \<and> tap_accepts (config_of False False 1) p"
    by simp
  moreover have "length (bundle_of [[0x45, 0x46], replicate 200 (0x47 :: byte)]) \<le> nat BUFSIZE"
    by (simp add: bundle_of_def frame_def separator_bytes_def BUFSIZE_def)
  moreover have "\<not> compress_headers (config_of False False 1)" by simp
  ultimately show ?thesis
    using bundle_is_demultiplexed [of "config_of False False 1"
        "[[0x45, 0x46], replicate 200 0x47]" "initial_state 0" feedback_only_rohc]
    by simp
qed

text \<open>
  Round trip with compression off. The bundles that a tap event sends are bundles of
  consecutive groups of the accepted packets (as above), and a receiver that
  demultiplexes one of these bundles writes the packets of its group to the tap,
  byte for byte and in the order in which they were accepted, when its device accepts
  each of them. A receiver whose plain char is signed needs every length of 64 or more
  to have a low byte below 128.
\<close>

theorem bundle_roundtrip:
  assumes a: "accumulated s ps" and r: "tap_to_net lib cfg s t pkt = (evs, Inr s')"
    and nc: "\<not> compress_headers cfg" and nc': "\<not> compress_headers cfg'"
    and dm: "length (demuxed_packet rs) = nat MTU"
    and sg: "char_signed cfg' \<longrightarrow>
               (\<forall>p\<in>set (ps @ [cread pkt]). length p < 64 \<or> int (length p) mod 256 < 128)"
    and acc: "\<forall>p\<in>set (ps @ [cread pkt]). tap_accepts cfg' p"
  shows "\<exists>sent ps'. concat sent @ ps' = ps @ [cread pkt] \<and> accumulated s' ps'
           \<and> datagrams evs = map bundle_of sent
           \<and> (\<forall>qs\<in>set sent.
                 tap_writes (fst (net_to_tap lib' cfg' rs (port cfg') (bundle_of qs))) = qs)"
proof -
  from tap_to_net_accumulated [OF a r] nc obtain sent ps' where
    c: "concat sent @ ps' = ps @ [cread pkt]" and a': "accumulated s' ps'"
    and d: "datagrams evs = map bundle_of sent"
    and l: "\<forall>b\<in>set (datagrams evs). int (length b) \<le> MTU"
    by auto
  have "tap_writes (fst (net_to_tap lib' cfg' rs (port cfg') (bundle_of qs))) = qs"
    if qs: "qs \<in> set sent" for qs
  proof -
    from qs d l have lb: "length (bundle_of qs) \<le> 1500" by (simp add: MTU_def)
    have sub: "set qs \<subseteq> set (ps @ [cread pkt])"
    proof -
      from qs have "set qs \<subseteq> set (concat sent)" by auto
      also have "\<dots> \<subseteq> set (concat sent @ ps')" by simp
      finally show ?thesis by (simp only: c)
    qed
    have "\<forall>p\<in>set qs. length p \<le> 16383 \<and> length p \<le> length (demuxed_packet rs)
               \<and> (char_signed cfg' \<longrightarrow> length p < 64 \<or> int (length p) mod 256 < 128)
               \<and> tap_accepts cfg' p"
    proof
      fix p assume p: "p \<in> set qs"
      from length_le_bundle_of [OF p] lb have "length p \<le> 1500" by simp
      moreover from p sub sg
      have "char_signed cfg' \<longrightarrow> length p < 64 \<or> int (length p) mod 256 < 128"
        by blast
      moreover from p sub acc have "tap_accepts cfg' p"
        by blast
      ultimately show "length p \<le> 16383 \<and> length p \<le> length (demuxed_packet rs)
               \<and> (char_signed cfg' \<longrightarrow> length p < 64 \<or> int (length p) mod 256 < 128)
               \<and> tap_accepts cfg' p"
        using dm by (simp add: MTU_def)
    qed
    moreover from lb have "length (bundle_of qs) \<le> nat BUFSIZE" by (simp add: BUFSIZE_def)
    ultimately show ?thesis
      using net_to_tap_bundle [OF nc', of qs rs lib'] by blast
  qed
  with c a' d show ?thesis by blast
qed

theorem bundle_roundtrip_witness:
  "tap_writes (fst (net_to_tap feedback_only_rohc (config_of False False 1) (initial_state 0) 55555
      (0x40 # 0xC8 # replicate 200 0x45))) = [replicate 200 0x45]"
proof -
  let ?p = "replicate 200 (0x45 :: byte)"
  let ?B = "0x40 # 0xC8 # ?p"
  have "\<exists>s'. tap_to_net feedback_only_rohc (config_of False False 1) (initial_state 7) 9 ?p
      = ([Sendto ?B], Inr s')"
    by (simp add: tap_eval accumulate_ok)
  then obtain s' :: "(unit, unit) state" where
    r: "tap_to_net feedback_only_rohc (config_of False False 1) (initial_state 7) 9 ?p
      = ([Sendto ?B], Inr s')"
    by blast
  have sg: "char_signed (config_of False False 1) \<longrightarrow>
      (\<forall>p\<in>set ([] @ [cread ?p]). length p < 64 \<or> int (length p) mod 256 < 128)"
    by simp
  have acc: "\<forall>p\<in>set ([] @ [cread ?p]). tap_accepts (config_of False False 1) p"
    by simp
  have dm: "length (demuxed_packet (initial_state 0)) = nat MTU" by (simp add: MTU_def)
  have nc: "\<not> compress_headers (config_of False False 1)" by simp
  from bundle_roundtrip [OF initial_state_accumulated r nc nc dm sg acc, of feedback_only_rohc]
  obtain sent ps' where
    c: "concat sent @ ps' = [] @ [cread ?p]"
    and d: "datagrams [Sendto ?B] = map bundle_of sent"
    and w: "\<forall>qs\<in>set sent. tap_writes (fst (net_to_tap feedback_only_rohc
        (config_of False False 1) (initial_state 0) (port (config_of False False 1))
        (bundle_of qs))) = qs"
    by blast
  from d obtain qs where sent: "sent = [qs]" and b: "bundle_of qs = ?B"
    by (cases sent) auto
  from b have "qs \<noteq> []" by (auto simp: bundle_of_def)
  with c sent have "qs = [?p]"
    by (cases qs) (auto simp: cread_def BUFSIZE_def)
  with w sent b show ?thesis by simp
qed

text \<open>
  A separator whose first byte has its most significant bit set ends the parsing of
  the datagram: the record \<open>bad_separator\<close> is logged when a log file is open, and
  nothing of the rest of the datagram is written to the tap.
\<close>

theorem bad_separator_discards_rest:
  assumes "position < nread" and "rd (buffer_from_net s) position = Some c" and "bit c 7"
  shows "demux_loop lib cfg nread s position = (logrec cfg (Error_bad_separator nread), Inr s)"
proof -
  from assms have "demux_packet lib cfg nread s position
      = (logrec cfg (Error_bad_separator nread), Inr (s, nread))"
    by (simp add: demux_packet_def FromByte_7)
  moreover have "demux_loop lib cfg nread s nread = ([], Inr s)"
    by (subst demux_loop.simps) simp
  ultimately show ?thesis
    using assms(1) by (subst demux_loop.simps) simp
qed

theorem bad_separator_discards_rest_witness:
  "net_to_tap feedback_only_rohc ((config_of False False 1)\<lparr>log_file := True\<rparr>) (initial_state 0)
       55555 [0x80, 0x01, 0x45]
     = ([Log (Rec_muxed 3), Log (Error_bad_separator 3)],
        Inr ((initial_state 0)\<lparr>buffer_from_net := 0x80 # 0x01 # 0x45 # replicate 1997 0\<rparr>))"
proof -
  let ?s = "(initial_state 0)\<lparr>buffer_from_net := 0x80 # 0x01 # 0x45 # replicate 1997 0\<rparr>"
  have "rd (buffer_from_net ?s) 0 = Some 0x80" by (simp add: rd_def)
  moreover have "bit (0x80 :: byte) 7" by simp
  ultimately show ?thesis
    using bad_separator_discards_rest [of 0 3 ?s "0x80" feedback_only_rohc
        "(config_of False False 1)\<lparr>log_file := True\<rparr>"]
    by (simp add: net_to_tap_def recvfrom_def BUFSIZE_def logrec_def)
qed

text \<open>
  A declared length that passes the end of the datagram, while the copy of lines
  784-787 stays inside \<^verbatim>\<open>buffer_from_net\<close> and \<^verbatim>\<open>demuxed_packet\<close>, ends the parsing of
  the datagram: the record \<open>demux_bad_length\<close> is logged when a log file is open and
  nothing is written to the tap. The bytes copied before the check stay in
  \<^verbatim>\<open>demuxed_packet\<close>. In the example a separator declares 100 bytes and 80 follow.
\<close>

theorem truncated_payload_discards_rest:
  assumes lt: "position < nread"
    and c: "rd (buffer_from_net s) position = Some c" and c7: "\<not> bit c 7"
    and rs: "read_separator (char_signed cfg) (buffer_from_net s) position = Inr (n, p1)"
    and n: "0 \<le> n" and over: "nread < p1 + n"
    and dm: "n \<le> int (length (demuxed_packet s))"
    and buf: "p1 + n \<le> int (length (buffer_from_net s))"
  shows "demux_loop lib cfg nread s position
           = (logrec cfg (Error_demux_bad_length nread),
              Inr (s\<lparr>demuxed_packet := take (nat n) (drop (nat p1) (buffer_from_net s))
                                         @ drop (nat n) (demuxed_packet s)\<rparr>))"
proof -
  let ?dm = "take (nat n) (drop (nat p1) (buffer_from_net s)) @ drop (nat n) (demuxed_packet s)"
  from c have "0 \<le> position" by (simp add: rd_def split: if_splits)
  moreover from rs have "position < p1"
    by (auto simp: read_separator_def split: option.splits if_splits)
  ultimately have p1: "0 \<le> p1" by simp
  from n dm p1 buf
  have cp: "copy_demuxed (buffer_from_net s) (demuxed_packet s) n 0 p1 = Inr (?dm, p1 + n)"
    using copy_demuxed_ok [of 0 n "demuxed_packet s" p1 "buffer_from_net s"] by simp
  from c c7 rs cp over have "demux_packet lib cfg nread s position
      = (logrec cfg (Error_demux_bad_length nread), Inr (s\<lparr>demuxed_packet := ?dm\<rparr>, p1 + n))"
    by (simp add: demux_packet_def FromByte_7)
  moreover from over have "demux_loop lib cfg nread (s\<lparr>demuxed_packet := ?dm\<rparr>) (p1 + n)
      = ([], Inr (s\<lparr>demuxed_packet := ?dm\<rparr>))"
    by (subst demux_loop.simps) simp
  ultimately show ?thesis
    using lt by (subst demux_loop.simps) simp
qed

theorem truncated_payload_discards_rest_witness:
  "net_to_tap feedback_only_rohc ((config_of False False 1)\<lparr>log_file := True\<rparr>) (initial_state 0)
       55555 (0x40 # 0x64 # replicate 80 0x45)
     = ([Log (Rec_muxed 82), Log (Error_demux_bad_length 82)],
        Inr ((initial_state 0)\<lparr>buffer_from_net := 0x40 # 0x64 # replicate 80 0x45 @ replicate 1918 0,
                               demuxed_packet := replicate 80 0x45 @ replicate 20 0 @ replicate 1400 0\<rparr>))"
proof -
  let ?cfg = "(config_of False False 1)\<lparr>log_file := True\<rparr>"
  let ?s = "(initial_state 0)\<lparr>buffer_from_net := 0x40 # 0x64 # replicate 80 0x45 @ replicate 1918 0\<rparr>"
  have "rd (buffer_from_net ?s) 0 = Some 0x40" by (simp add: rd_def)
  moreover have "\<not> bit (0x40 :: byte) 7" by simp
  moreover have "read_separator (char_signed ?cfg) (buffer_from_net ?s) 0 = Inr (100, 2)"
    by (simp add: read_separator_def rd_def FromByte_6 char_val_def smod_int_alt_def)
  ultimately show ?thesis
    using truncated_payload_discards_rest [of 0 82 ?s "0x40" ?cfg 100 2 feedback_only_rohc]
    by (simp add: net_to_tap_def recvfrom_def BUFSIZE_def logrec_def)
qed

end
